theory Spec2Isabelle
  imports Main "HOL-Library.AList" "HOL-Library.Multiset"
begin

section \<open>The Go library functions the track command calls\<close>

text \<open>
  Go strings are byte strings; a \<^typ>\<open>string\<close> here is the list of those bytes.
\<close>

subsection \<open>Package strings\<close>

fun HasPrefix :: "string \<Rightarrow> string \<Rightarrow> bool" where
  "HasPrefix s [] = True"
| "HasPrefix [] (p # ps) = False"
| "HasPrefix (c # cs) (p # ps) = (c = p \<and> HasPrefix cs ps)"

fun Contains :: "string \<Rightarrow> string \<Rightarrow> bool" where
  "Contains [] substr = (substr = [])"
| "Contains (c # cs) substr = (HasPrefix (c # cs) substr \<or> Contains cs substr)"

text \<open>
  \<open>strings.Replace(s, old, new, -1)\<close> for a non-empty \<open>old\<close>: every non-overlapping
  occurrence, left to right. The only call passes the one-byte string \<open>" "\<close>; Go's
  treatment of an empty \<open>old\<close> (an insertion at every rune boundary) cannot arise and
  is left as the identity.
\<close>

function Replace :: "string \<Rightarrow> string \<Rightarrow> string \<Rightarrow> string" where
  "Replace s old new =
     (if old = [] \<or> s = [] then s
      else if HasPrefix s old then new @ Replace (drop (length old) s) old new
      else hd s # Replace (tl s) old new)"
  by pat_completeness auto
termination
  by (relation "measure (\<lambda>(s, old, new). length s)") auto

declare Replace.simps [simp del]

text \<open>
  \<open>strings.Fields\<close> splits around runs of white space as \<open>unicode.IsSpace\<close> defines it:
  the six ASCII characters tab, line feed, vertical tab, form feed, carriage return and
  space, and the code points U+0085, U+00A0, U+1680, U+2000 to U+200A, U+2028, U+2029,
  U+202F, U+205F and U+3000. On bytes these are the UTF-8 sequences listed in
  \<open>unicodeSpaces\<close>. Each starts with a lead byte and continues with bytes from
  \<open>0x80\<close> to \<open>0xBF\<close>, and Go's decoder consumes one byte at an invalid sequence, so it
  stops at every lead byte of the input: white space is found exactly where one of
  these sequences stands in the bytes.
\<close>

definition asciiSpace :: "char \<Rightarrow> bool" where
  "asciiSpace c = (c = CHR 0x09 \<or> c = CHR 0x0A \<or> c = CHR 0x0B \<or> c = CHR 0x0C
                   \<or> c = CHR 0x0D \<or> c = CHR 0x20)"

definition unicodeSpaces :: "string list" where
  "unicodeSpaces =
     [[CHR 0xC2, CHR 0x85], [CHR 0xC2, CHR 0xA0], [CHR 0xE1, CHR 0x9A, CHR 0x80],
      [CHR 0xE2, CHR 0x80, CHR 0x80], [CHR 0xE2, CHR 0x80, CHR 0x81],
      [CHR 0xE2, CHR 0x80, CHR 0x82], [CHR 0xE2, CHR 0x80, CHR 0x83],
      [CHR 0xE2, CHR 0x80, CHR 0x84], [CHR 0xE2, CHR 0x80, CHR 0x85],
      [CHR 0xE2, CHR 0x80, CHR 0x86], [CHR 0xE2, CHR 0x80, CHR 0x87],
      [CHR 0xE2, CHR 0x80, CHR 0x88], [CHR 0xE2, CHR 0x80, CHR 0x89],
      [CHR 0xE2, CHR 0x80, CHR 0x8A], [CHR 0xE2, CHR 0x80, CHR 0xA8],
      [CHR 0xE2, CHR 0x80, CHR 0xA9], [CHR 0xE2, CHR 0x80, CHR 0xAF],
      [CHR 0xE2, CHR 0x81, CHR 0x9F], [CHR 0xE3, CHR 0x80, CHR 0x80]]"

text \<open>The number of bytes of the white space rune at the head of \<open>s\<close>, 0 when there is none.\<close>

definition spaceWidth :: "string \<Rightarrow> nat" where
  "spaceWidth s =
     (case s of
        [] \<Rightarrow> 0
      | c # cs \<Rightarrow>
          if asciiSpace c then 1
          else (case find (HasPrefix s) unicodeSpaces of
                  None \<Rightarrow> 0
                | Some w \<Rightarrow> length w))"

text \<open>
  The loop of \<open>strings.FieldsFunc\<close>: \<open>cur\<close> is the field being read (empty between
  fields), closed by the next white space or by the end of the input.
\<close>

function fieldsFrom :: "string \<Rightarrow> string \<Rightarrow> string list" where
  "fieldsFrom cur s =
     (if s = [] then (if cur = [] then [] else [cur])
      else if 0 < spaceWidth s
        then (if cur = [] then [] else [cur]) @ fieldsFrom [] (drop (spaceWidth s) s)
      else fieldsFrom (cur @ [hd s]) (tl s))"
  by pat_completeness auto
termination
  by (relation "measure (\<lambda>(cur, s). length s)") auto

declare fieldsFrom.simps [simp del]

definition Fields :: "string \<Rightarrow> string list" where
  "Fields s = fieldsFrom [] s"

subsection \<open>Package bufio: a Scanner with the default split function ScanLines\<close>

definition MaxScanTokenSize :: int where
  "MaxScanTokenSize = 64 * 1024"

definition dropCR :: "string \<Rightarrow> string" where
  "dropCR data = (if data \<noteq> [] \<and> last data = CHR 0x0D then butlast data else data)"

text \<open>
  The tokens \<open>scanner.Scan\<close> delivers until it returns false. A line ends at a line feed
  or at the end of the input; an empty final line is not a token. The scanner's buffer
  grows to \<open>MaxScanTokenSize\<close> bytes and no further: a line that does not end within it
  stops the scan with \<open>ErrTooLong\<close> (which the callers here never look at), and the rest
  of the input is not delivered.
\<close>

function scanLines :: "string \<Rightarrow> string list" where
  "scanLines data =
     (if data = [] then []
      else let line = takeWhile (\<lambda>c. c \<noteq> CHR 0x0A) data in
        if MaxScanTokenSize \<le> int (length line) then []
        else dropCR line # scanLines (drop (Suc (length line)) data))"
  by pat_completeness auto
termination
  by (relation "measure length") auto

declare scanLines.simps [simp del]

subsection \<open>Package path/filepath, on a system whose separator is the slash\<close>

text \<open>The elements between the separators of a path, empty ones included.\<close>

function splitSep :: "string \<Rightarrow> string list" where
  "splitSep s =
     (let e = takeWhile (\<lambda>c. c \<noteq> CHR ''/'') s in
      if length e < length s then e # splitSep (drop (Suc (length e)) s) else [e])"
  by pat_completeness auto
termination
  by (relation "measure length") auto

declare splitSep.simps [simp del]

fun joinSep :: "string list \<Rightarrow> string" where
  "joinSep [] = []"
| "joinSep [e] = e"
| "joinSep (e # es) = e @ CHR ''/'' # joinSep es"

text \<open>
  \<open>filepath.Clean\<close>: empty elements and \<open>.\<close> are dropped, \<open>..\<close> removes the element
  before it when there is one that is not itself \<open>..\<close>, is dropped at the root of a
  rooted path and is kept otherwise; the empty result is \<open>.\<close>. \<open>out\<close> is the list of
  elements written so far.
\<close>

definition cleanElem :: "bool \<Rightarrow> string list \<Rightarrow> string \<Rightarrow> string list" where
  "cleanElem rooted out e =
     (if e = [] \<or> e = ''.'' then out
      else if e = ''..'' then
        (if out \<noteq> [] \<and> last out \<noteq> ''..'' then butlast out
         else if \<not> rooted then out @ [''..'']
         else out)
      else out @ [e])"

definition Clean :: "string \<Rightarrow> string" where
  "Clean path =
     (let rooted = HasPrefix path ''/'';
          out = foldl (cleanElem rooted) [] (splitSep path);
          cleaned = (if rooted then ''/'' else []) @ joinSep out
      in if cleaned = [] then ''.'' else cleaned)"

definition Join :: "string list \<Rightarrow> string" where
  "Join elem =
     (case dropWhile (\<lambda>e. e = []) elem of
        [] \<Rightarrow> []
      | e # es \<Rightarrow> Clean (joinSep (e # es)))"

definition Dir :: "string \<Rightarrow> string" where
  "Dir path = Clean (rev (dropWhile (\<lambda>c. c \<noteq> CHR ''/'') (rev path)))"

definition Base :: "string \<Rightarrow> string" where
  "Base path =
     (if path = [] then ''.''
      else let stripped = rev (dropWhile (\<lambda>c. c = CHR ''/'') (rev path));
               last_elem = rev (takeWhile (\<lambda>c. c \<noteq> CHR ''/'') (rev stripped))
           in if last_elem = [] then ''/'' else last_elem)"

text \<open>
  \<open>filepath.Rel\<close>: both paths are cleaned and compared element by element; what is left
  of the base is climbed with \<open>..\<close>, what is left of the target is descended. Rel
  returns an error when one path is rooted and the other is not, and when the first
  element in which the base differs from the target is \<open>..\<close>. The second component
  says whether it did (then the path is empty).
\<close>

definition relElems :: "string \<Rightarrow> string list" where
  "relElems p = (if p = [] then [] else if p = ''/'' then [[]] else splitSep p)"

fun relLoop :: "string list \<Rightarrow> string list \<Rightarrow> string list \<times> string list" where
  "relLoop (b # bs) (t # ts) = (if b = t then relLoop bs ts else (b # bs, t # ts))"
| "relLoop bs ts = (bs, ts)"

definition Rel :: "string \<Rightarrow> string \<Rightarrow> string \<times> bool" where
  "Rel basepath targpath =
     (let base = Clean basepath; targ = Clean targpath in
      if targ = base then (''.'', False)
      else let base = (if base = ''.'' then [] else base) in
        if HasPrefix base ''/'' \<noteq> HasPrefix targ ''/'' then ([], True)
        else (case relLoop (relElems base) (relElems targ) of
                (b # bs, t # ts) \<Rightarrow>
                  if b = ''..'' then ([], True)
                  else (joinSep (replicate (length (b # bs)) ''..'' @ (t # ts)), False)
              | (b # bs, []) \<Rightarrow> (joinSep (replicate (length (b # bs)) ''..''), False)
              | ([], ts) \<Rightarrow> (joinSep ts, False)))"

section \<open>The track command (commands/command_track.go)\<close>

subsection \<open>Package-level variables, constants and types\<close>

definition prefixBlocklist :: "string list" where
  "prefixBlocklist = [''.git'', ''.lfs'']"

definition lockableAttrib :: string where
  "lockableAttrib = ''lockable''"

record mediaPath =
  Path :: string
  Source :: string
  Lockable :: bool

text \<open>
  What \<open>filepath.Walk\<close> meets at a path: something that is not a directory, a directory
  with its entries in the order \<open>readDirNames\<close> returns them (sorted by name), a
  directory whose entries cannot be read, or a name on which \<open>Lstat\<close> fails.
\<close>

datatype fsnode =
    File
  | Directory "(string \<times> fsnode) list"
  | UnreadableDirectory
  | NoLstat

datatype walkError = LstatError | ReadDirError

text \<open>How \<open>ioutil.ReadFile(".gitattributes")\<close> ends.\<close>

datatype readResult = ReadOk string | ReadNotExist | ReadError

text \<open>
  Everything the command reads from outside the file: the two directories of package
  config, the four flag variables that \<open>init\<close> registers, and the answers of the
  operating system and of the helpers whose code is elsewhere (\<open>cleanRootPath\<close>,
  \<open>git.GetTrackedFiles\<close>). \<open>os_Stat\<close> gives \<open>info.IsDir()\<close>, or nothing when Stat
  fails; \<open>os_Open\<close> gives the bytes a scanner reads from the opened file, or nothing
  when Open fails; \<open>os_Getwd\<close> is empty when Getwd fails; \<open>os_OpenFile\<close> says whether
  \<open>.gitattributes\<close> can be opened for writing; \<open>os_Chtimes\<close> says whether the times of
  a file can be set. Go visits the entries of a map in an order it leaves unspecified
  and randomises: \<open>rangeOrder\<close> holds the choices of one run.
\<close>

record env =
  config_LocalGitDir :: string
  config_LocalWorkingDir :: string
  trackVerboseLoggingFlag :: bool
  trackDryRunFlag :: bool
  trackLockableFlag :: bool
  trackNotLockableFlag :: bool
  cleanRootPath :: "string \<Rightarrow> string"
  os_Getwd :: string
  os_Stat :: "string \<Rightarrow> bool option"
  tree :: fsnode
  os_Open :: "string \<Rightarrow> string option"
  ioutil_ReadFile :: readResult
  os_OpenFile :: bool
  git_GetTrackedFiles :: "string \<Rightarrow> string list option"
  os_Chtimes :: "string \<Rightarrow> bool"
  rangeOrder :: "nat list"

text \<open>
  The lines the command prints, one constructor for each format string of the source
  with the arguments it is given.
\<close>

datatype message =
    NotAGitRepository
  | MustBeRunInAWorkTree
  | ListingTrackedPaths
  | ListedPath string bool string
  | OutsideWorkingDirectory string string
  | AlreadySupported string
  | Tracking string
  | ErrorReadingAttributes
  | ErrorOpeningAttributes
  | SearchingForFiles string
  | FoundFiles nat string
  | ErrorGettingTrackedFiles string
  | MatchesForbiddenFile string string
  | Touching string
  | ErrorMarkingModified string

text \<open>
  How an invocation ends: the function returns, \<open>os.Exit(128)\<close>, the helper \<open>Exit\<close>
  (a message, then the process exits), or a run-time panic.
\<close>

datatype ending = Returns | Exit128 | ExitFatal | Panics

text \<open>
  What an invocation has done: the lines printed, the bytes written to
  \<open>.gitattributes\<close> of the current directory after it was opened with \<open>O_TRUNC\<close>
  (nothing when it was not opened), and the files whose times were set. The writes go
  to the file as they are made, so they stay when the process ends early.
\<close>

record outcome =
  printed :: "message list"
  written :: "string option"
  touched :: "string list"
  ending :: ending

subsection \<open>blocklistItem\<close>

definition blocklistItem :: "string \<Rightarrow> string" where
  "blocklistItem name =
     (let base = Base name in
      case find (\<lambda>p. HasPrefix base p) prefixBlocklist of
        Some p \<Rightarrow> p
      | None \<Rightarrow> [])"

subsection \<open>findAttributeFiles\<close>

text \<open>
  The function literal passed to \<open>filepath.Walk\<close>, with the slice \<open>paths\<close> it appends
  to as state. \<open>isDir\<close> is \<open>info.IsDir()\<close>.
\<close>

definition walkFn ::
  "string list \<Rightarrow> string \<Rightarrow> bool \<Rightarrow> walkError option \<Rightarrow> string list \<times> walkError option" where
  "walkFn paths path isDir err =
     (case err of
        Some e \<Rightarrow> (paths, Some e)
      | None \<Rightarrow>
          if \<not> isDir \<and> Base path = ''.gitattributes'' then (paths @ [path], None)
          else (paths, None))"

text \<open>
  \<open>filepath.Walk\<close> with that function: it is called for every file and directory, an
  error of \<open>Lstat\<close> or of reading a directory is handed to it, and the first error it
  returns ends the walk. (The function never returns \<open>SkipDir\<close>: it only returns the
  errors it was given.)
\<close>

fun walk :: "string \<Rightarrow> fsnode \<Rightarrow> string list \<Rightarrow> string list \<times> walkError option"
  and walkNames ::
    "string \<Rightarrow> (string \<times> fsnode) list \<Rightarrow> string list \<Rightarrow> string list \<times> walkError option" where
  "walk path File paths = walkFn paths path False None"
| "walk path NoLstat paths = walkFn paths path False (Some LstatError)"
| "walk path UnreadableDirectory paths = walkFn paths path True (Some ReadDirError)"
| "walk path (Directory entries) paths =
     (case walkFn paths path True None of
        (paths', Some e) \<Rightarrow> (paths', Some e)
      | (paths', None) \<Rightarrow> walkNames path entries paths')"
| "walkNames path [] paths = (paths, None)"
| "walkNames path (entry # entries) paths =
     (case walk (Join [path, fst entry]) (snd entry) paths of
        (paths', Some e) \<Rightarrow> (paths', Some e)
      | (paths', None) \<Rightarrow> walkNames path entries paths')"

text \<open>The loop that reverses \<open>paths\<close> in place, with the indices \<open>i\<close> and \<open>j\<close> of Go's \<open>int\<close>.\<close>

function reversePaths :: "int \<Rightarrow> int \<Rightarrow> string list \<Rightarrow> string list" where
  "reversePaths i j paths =
     (if i < j
      then reversePaths (i + 1) (j - 1)
             (paths[nat i := paths ! nat j, nat j := paths ! nat i])
      else paths)"
  by pat_completeness auto
termination
  by (relation "measure (\<lambda>(i, j, paths). nat (j - i))") auto

declare reversePaths.simps [simp del]

text \<open>The value \<open>filepath.Walk\<close> returns is not kept: only \<open>paths\<close> is.\<close>

definition findAttributeFiles :: "env \<Rightarrow> string list" where
  "findAttributeFiles e =
     (let repoAttributes = Join [config_LocalGitDir e, ''info'', ''attributes''];
          paths = (case os_Stat e repoAttributes of
                     Some False \<Rightarrow> [repoAttributes]
                   | _ \<Rightarrow> []);
          paths = fst (walk (config_LocalWorkingDir e) (tree e) paths)
      in reversePaths 0 (int (length paths) - 1) paths)"

subsection \<open>findPaths\<close>

text \<open>
  The body of the inner loop: the entry a line adds to \<open>paths\<close>, if any. A line that
  contains \<open>filter=lfs\<close> has a first field (lemma \<open>Fields_filter_line\<close> below), so
  \<open>fields[0]\<close> cannot panic here and the first case is never taken.
\<close>

definition lineEntry :: "env \<Rightarrow> string \<Rightarrow> string \<Rightarrow> mediaPath list" where
  "lineEntry e path line =
     (if Contains line ''filter=lfs'' then
        (case Fields line of
           [] \<Rightarrow> []
         | field0 # rest \<Rightarrow>
             let relfile = fst (Rel (config_LocalWorkingDir e) path);
                 reldir = Dir relfile;
                 pattern = (if 0 < length reldir then Join [reldir, field0] else field0);
                 lockable = Contains line lockableAttrib
             in [\<lparr>Path = pattern, Source = relfile, Lockable = lockable\<rparr>])
      else [])"

definition findPaths :: "env \<Rightarrow> mediaPath list" where
  "findPaths e =
     concat (map (\<lambda>path.
         case os_Open e path of
           None \<Rightarrow> []
         | Some attributes \<Rightarrow> concat (map (lineEntry e path) (scanLines attributes)))
       (findAttributeFiles e))"

subsection \<open>trackCommand\<close>

text \<open>
  The map \<open>changedAttribLines\<close> is the list of its entries, with distinct keys:
  \<open>map_of\<close> looks a key up, \<open>AList.update\<close> assigns, \<open>AList.delete\<close> deletes.
\<close>

type_synonym attribLines = "(string \<times> string) list"

text \<open>The line generated for a pattern (the value stored in the map).\<close>

definition changedAttribLine :: "bool \<Rightarrow> string \<Rightarrow> string" where
  "changedAttribLine lockable pattern =
     (let encodedArg = Replace pattern '' '' ''[[:space:]]'';
          lockableArg = (if lockable then '' '' @ lockableAttrib else [])
      in encodedArg @ '' filter=lfs diff=lfs merge=lfs -text'' @ lockableArg @ [CHR 0x0A])"

text \<open>The inner loop of ArgsLoop: whether some known path makes the loop continue.\<close>

definition alreadySupported :: "env \<Rightarrow> mediaPath list \<Rightarrow> string \<Rightarrow> string \<Rightarrow> bool" where
  "alreadySupported e knownPaths relpath pattern =
     list_ex (\<lambda>known. Path known = Join [relpath, pattern]
                       \<and> trackLockableFlag e = Lockable known) knownPaths"

fun argsLoop ::
  "env \<Rightarrow> mediaPath list \<Rightarrow> string \<Rightarrow> string list \<Rightarrow> message list \<times> attribLines
     \<Rightarrow> message list \<times> attribLines" where
  "argsLoop e knownPaths relpath [] st = st"
| "argsLoop e knownPaths relpath (unsanitizedPattern # args) (out, changedAttribLines) =
     (let pattern = cleanRootPath e unsanitizedPattern in
      if alreadySupported e knownPaths relpath pattern
      then argsLoop e knownPaths relpath args (out @ [AlreadySupported pattern], changedAttribLines)
      else argsLoop e knownPaths relpath args
             (out @ [Tracking pattern],
              AList.update pattern (changedAttribLine (trackLockableFlag e) pattern)
                changedAttribLines))"

text \<open>
  The loop over the lines of the old contents: the bytes written so far and the map
  are the state. \<open>fields[0]\<close> panics (index out of range) on a line that has no field;
  the first component of the result says whether that happened.
\<close>

fun mergeLoop :: "string list \<Rightarrow> attribLines \<Rightarrow> string \<Rightarrow> bool \<times> string \<times> attribLines" where
  "mergeLoop [] changedAttribLines file = (False, file, changedAttribLines)"
| "mergeLoop (line # lines) changedAttribLines file =
     (case Fields line of
        [] \<Rightarrow> (True, file, changedAttribLines)
      | pattern # rest \<Rightarrow>
          (case map_of changedAttribLines pattern of
             Some newline \<Rightarrow>
               mergeLoop lines (AList.delete pattern changedAttribLines) (file @ newline)
           | None \<Rightarrow> mergeLoop lines changedAttribLines (file @ line @ [CHR 0x0A])))"

text \<open>
  The order in which \<open>range\<close> visits the entries of a map: each choice picks one of the
  entries not yet visited.
\<close>

function rangeMap :: "nat list \<Rightarrow> 'a list \<Rightarrow> 'a list" where
  "rangeMap choices entries =
     (if entries = [] then []
      else case choices of
        [] \<Rightarrow> entries
      | n # ns \<Rightarrow>
          let i = n mod length entries in
          entries ! i # rangeMap ns (take i entries @ drop (Suc i) entries))"
  by pat_completeness auto
termination
proof (relation "measure (\<lambda>(choices, entries). length entries)", goal_cases)
  case 1
  show ?case by simp
next
  case (2 choices entries n ns i)
  then have "i < length entries"
    by simp
  then have "min (length entries) i + (length entries - Suc i) < length entries"
    by arith
  then show ?case
    by simp
qed

declare rangeMap.simps [simp del]

definition print :: "message \<Rightarrow> outcome \<Rightarrow> outcome" where
  "print m st = st\<lparr>printed := printed st @ [m]\<rparr>"

definition writeString :: "string \<Rightarrow> outcome \<Rightarrow> outcome" where
  "writeString s st = st\<lparr>written := map_option (\<lambda>file. file @ s) (written st)\<rparr>"

text \<open>The body of the first loop over \<open>gittracked\<close>.\<close>

definition checkBlocklist :: "string \<Rightarrow> outcome \<times> bool \<Rightarrow> string \<Rightarrow> outcome \<times> bool" where
  "checkBlocklist pattern stm f =
     (if blocklistItem f \<noteq> [] then (print (MatchesForbiddenFile pattern f) (fst stm), True)
      else stm)"

text \<open>The body of the second loop over \<open>gittracked\<close>.\<close>

definition touch :: "env \<Rightarrow> outcome \<Rightarrow> string \<Rightarrow> outcome" where
  "touch e st f =
     (let st = (if trackVerboseLoggingFlag e \<or> trackDryRunFlag e then print (Touching f) st
                else st)
      in if \<not> trackDryRunFlag e then
           (if os_Chtimes e f then st\<lparr>touched := touched st @ [f]\<rparr>
            else print (ErrorMarkingModified f) st)
         else st)"

text \<open>The body of the loop over the entries left in the map.\<close>

definition trackPattern :: "env \<Rightarrow> string \<times> string \<Rightarrow> outcome \<Rightarrow> outcome" where
  "trackPattern e entry st =
     (let pattern = fst entry; newline = snd entry;
          st = writeString newline st;
          st = (if trackVerboseLoggingFlag e then print (SearchingForFiles pattern) st else st)
      in case git_GetTrackedFiles e pattern of
           None \<Rightarrow> (print (ErrorGettingTrackedFiles pattern) st)\<lparr>ending := ExitFatal\<rparr>
         | Some gittracked \<Rightarrow>
             let st = (if trackVerboseLoggingFlag e
                       then print (FoundFiles (length gittracked) pattern) st else st);
                 (st, matchedBlocklist) = foldl (checkBlocklist pattern) (st, False) gittracked
             in if matchedBlocklist then st
                else foldl (touch e) st gittracked)"

fun rangeLoop :: "env \<Rightarrow> attribLines \<Rightarrow> outcome \<Rightarrow> outcome" where
  "rangeLoop e [] st = st"
| "rangeLoop e (entry # entries) st =
     (let st = trackPattern e entry st in
      if ending st = Returns then rangeLoop e entries st else st)"

definition listedPath :: "mediaPath \<Rightarrow> message" where
  "listedPath t = ListedPath (Path t) (Lockable t) (Source t)"

text \<open>
  The command. \<open>requireGitVersion\<close> and \<open>lfs.InstallHooks\<close>, whose code is elsewhere
  and which touch nothing the command reads, are left out.
\<close>

definition trackCommand :: "env \<Rightarrow> string list \<Rightarrow> outcome" where
  "trackCommand e args =
     (let st = \<lparr>printed = [], written = None, touched = [], ending = Returns\<rparr> in
      if config_LocalGitDir e = [] then (print NotAGitRepository st)\<lparr>ending := Exit128\<rparr>
      else if config_LocalWorkingDir e = []
        then (print MustBeRunInAWorkTree st)\<lparr>ending := Exit128\<rparr>
      else
        let knownPaths = findPaths e in
        if length args = 0
          then st\<lparr>printed := ListingTrackedPaths # map listedPath knownPaths\<rparr>
        else
          let wd = os_Getwd e;
              (relpath, err) = Rel (config_LocalWorkingDir e) wd
          in
          if err then (print (OutsideWorkingDirectory wd (config_LocalWorkingDir e)) st)
                        \<lparr>ending := ExitFatal\<rparr>
          else
            let (out, changedAttribLines) = argsLoop e knownPaths relpath args ([], []);
                st = st\<lparr>printed := out\<rparr>
            in
            case ioutil_ReadFile e of
              ReadError \<Rightarrow> print ErrorReadingAttributes st
            | ReadNotExist \<Rightarrow>
                if \<not> os_OpenFile e then print ErrorOpeningAttributes st
                else rangeLoop e (rangeMap (rangeOrder e) changedAttribLines)
                       (st\<lparr>written := Some []\<rparr>)
            | ReadOk attribContents \<Rightarrow>
                if \<not> os_OpenFile e then print ErrorOpeningAttributes st
                else
                  let (panic, file, changedAttribLines) =
                        (if 0 < length attribContents
                         then mergeLoop (scanLines attribContents) changedAttribLines []
                         else (False, [], changedAttribLines))
                  in
                  if panic then st\<lparr>written := Some file, ending := Panics\<rparr>
                  else rangeLoop e (rangeMap (rangeOrder e) changedAttribLines)
                         (st\<lparr>written := Some file\<rparr>))"

subsection \<open>Notions used to state the properties\<close>

text \<open>The first field of a line, \<open>fields[0]\<close>; empty for a line that has no field.\<close>

definition firstField :: "string \<Rightarrow> string" where
  "firstField line = (case Fields line of [] \<Rightarrow> [] | pattern # rest \<Rightarrow> pattern)"

text \<open>Whether white space, as \<open>strings.Fields\<close> sees it, stands somewhere in a string.\<close>

fun hasSpace :: "string \<Rightarrow> bool" where
  "hasSpace [] = False"
| "hasSpace (c # cs) = (0 < spaceWidth (c # cs) \<or> hasSpace cs)"

text \<open>
  What the rewritten file holds in the place of line \<open>i\<close> of the old one, said from the
  map as it is before the scan: the new line of the pattern when the line's first field
  is a key and no earlier line has the same first field, the line itself followed by a
  line feed otherwise.
\<close>

definition mergedLine :: "attribLines \<Rightarrow> string list \<Rightarrow> nat \<Rightarrow> string" where
  "mergedLine changedAttribLines lines i =
     (case map_of changedAttribLines (firstField (lines ! i)) of
        None \<Rightarrow> lines ! i @ [CHR 0x0A]
      | Some newline \<Rightarrow>
          if firstField (lines ! i) \<in> firstField ` set (take i lines)
          then lines ! i @ [CHR 0x0A]
          else newline)"

subsection \<open>Inputs for the examples\<close>

text \<open>
  A work tree \<open>/repo\<close> with nothing in it, the command run at its root with every flag
  off; \<open>cleanRootPath\<close> as it is outside Windows (the identity); no tracked file
  matches any pattern.
\<close>

definition emptyRepo :: env where
  "emptyRepo =
     \<lparr>config_LocalGitDir = ''/repo/.git'', config_LocalWorkingDir = ''/repo'',
      trackVerboseLoggingFlag = False, trackDryRunFlag = False,
      trackLockableFlag = False, trackNotLockableFlag = False,
      cleanRootPath = (\<lambda>pattern. pattern), os_Getwd = ''/repo'',
      os_Stat = (\<lambda>name. None), tree = Directory [], os_Open = (\<lambda>name. None),
      ioutil_ReadFile = ReadNotExist, os_OpenFile = True,
      git_GetTrackedFiles = (\<lambda>pattern. Some []), os_Chtimes = (\<lambda>name. True),
      rangeOrder = []\<rparr>"

text \<open>
  The same work tree with a rule file at its root and one in the directory \<open>docs\<close>,
  and with the file \<open>info/attributes\<close> in the repository's directory \<open>.git\<close>.
\<close>

definition nestedRepo :: env where
  "nestedRepo =
     emptyRepo
       \<lparr>os_Stat := (\<lambda>name. if name = ''/repo/.git/info/attributes'' then Some False else None),
        tree := Directory
          [(''.git'', Directory [(''info'', Directory [(''attributes'', File)])]),
           (''.gitattributes'', File),
           (''docs'', Directory [(''.gitattributes'', File)])]\<rparr>"

text \<open>
  The empty work tree again, where git reports two tracked files for every pattern:
  first a file under the directory \<open>.git\<close> and a readme, then a file named
  \<open>.gitattributes\<close> and a readme.
\<close>

definition fooTxtRepo :: env where
  "fooTxtRepo =
     emptyRepo\<lparr>git_GetTrackedFiles := (\<lambda>pattern. Some [''.git/info/foo.txt'', ''readme.txt''])\<rparr>"

definition gitattributesRepo :: env where
  "gitattributesRepo =
     emptyRepo\<lparr>git_GetTrackedFiles := (\<lambda>pattern. Some [''.gitattributes'', ''readme.txt''])\<rparr>"

text \<open>The empty work tree where git reports the tracked file \<open>readme.txt\<close> for every pattern.\<close>

definition readmeRepo :: env where
  "readmeRepo = emptyRepo\<lparr>git_GetTrackedFiles := (\<lambda>pattern. Some [''readme.txt''])\<rparr>"

text \<open>The empty work tree in a run where \<open>range\<close> visits the second entry of a map first.\<close>

definition shuffledRepo :: env where
  "shuffledRepo = emptyRepo\<lparr>rangeOrder := [1]\<rparr>"

text \<open>
  The work tree \<open>/repo\<close> whose only file is the rule file \<open>.gitattributes\<close> at its root,
  with the given contents.
\<close>

definition repoWith :: "string \<Rightarrow> env" where
  "repoWith attributes =
     emptyRepo
       \<lparr>tree := Directory [(''.gitattributes'', File)],
        os_Open := (\<lambda>name. if name = ''/repo/.gitattributes'' then Some attributes else None),
        ioutil_ReadFile := ReadOk attributes\<rparr>"

text \<open>Rule files: two rules with an empty line between them; two lines for the same pattern.\<close>

definition blankLineAttributes :: string where
  "blankLineAttributes =
     ''*.bin filter=lfs diff=lfs merge=lfs -text'' @ [CHR 0x0A] @ [CHR 0x0A]
     @ ''*.png filter=lfs diff=lfs merge=lfs -text'' @ [CHR 0x0A]"

definition twiceAttributes :: string where
  "twiceAttributes = ''*.bin text'' @ [CHR 0x0A] @ ''*.bin -diff'' @ [CHR 0x0A]"

text \<open>
  A work tree with a rule file at its root, a directory \<open>cache\<close> that cannot be read,
  and a rule file in the directory \<open>docs\<close>, which sorts after it.
\<close>

definition unreadableRepo :: env where
  "unreadableRepo =
     emptyRepo
       \<lparr>tree := Directory
          [(''.gitattributes'', File),
           (''cache'', UnreadableDirectory),
           (''docs'', Directory [(''.gitattributes'', File)])]\<rparr>"

text \<open>
  A rule file with a rule for \<open>*.bin\<close>, and what the command run in \<open>repoWith binAttributes\<close>
  with the arguments \<open>*.txt\<close> and \<open>*.bin\<close> leaves in it.
\<close>

definition binAttributes :: string where
  "binAttributes = ''*.bin filter=lfs diff=lfs merge=lfs -text'' @ [CHR 0x0A]"

definition binTxtAttributes :: string where
  "binTxtAttributes =
     ''*.bin filter=lfs diff=lfs merge=lfs -text'' @ [CHR 0x0A]
     @ ''*.txt filter=lfs diff=lfs merge=lfs -text'' @ [CHR 0x0A]"

section \<open>Properties\<close>

subsection \<open>A line with \<open>filter=lfs\<close> has a first field\<close>

lemma HasPrefix_take: "HasPrefix s w \<Longrightarrow> take (length w) s = w"
  by (induction s w rule: HasPrefix.induct) simp_all

lemma Contains_head: "Contains s (c # sub) \<Longrightarrow> c \<in> set s"
  by (induction s) auto

lemma spaceWidth_bytes:
  assumes "0 < spaceWidth s" and "c \<in> set (take (spaceWidth s) s)"
  shows "asciiSpace c \<or> c \<in> \<Union> (set ` set unicodeSpaces)"
proof (cases s)
  case Nil
  with assms show ?thesis by simp
next
  case (Cons x xs)
  show ?thesis
  proof (cases "asciiSpace x")
    case True
    with assms Cons show ?thesis
      by (simp add: spaceWidth_def)
  next
    case False
    with assms(1) Cons obtain w where w: "find (HasPrefix s) unicodeSpaces = Some w"
      by (auto simp add: spaceWidth_def split: option.splits)
    then have "w \<in> set unicodeSpaces" "HasPrefix s w"
      by (auto simp add: find_Some_iff)
    moreover from w False Cons have "spaceWidth s = length w"
      by (simp add: spaceWidth_def)
    ultimately show ?thesis
      using assms(2) HasPrefix_take [of s w] by auto
  qed
qed

lemma fieldsFrom_Nil:
  "fieldsFrom cur s = [] \<Longrightarrow>
   cur = [] \<and> (\<forall>c \<in> set s. asciiSpace c \<or> c \<in> \<Union> (set ` set unicodeSpaces))"
proof (induction cur s rule: fieldsFrom.induct)
  case (1 cur s)
  show ?case
  proof (cases "s = []")
    case True
    with "1.prems" show ?thesis
      by (subst (asm) fieldsFrom.simps) (simp split: if_splits)
  next
    case False
    show ?thesis
    proof (cases "0 < spaceWidth s")
      case True
      with False "1.prems"
      have cur: "cur = []" and rest: "fieldsFrom [] (drop (spaceWidth s) s) = []"
        by (subst (asm) fieldsFrom.simps, simp split: if_splits)+
      from "1.IH"(1) [OF False True rest]
      have "\<forall>c \<in> set (drop (spaceWidth s) s). asciiSpace c \<or> c \<in> \<Union> (set ` set unicodeSpaces)"
        by simp
      moreover have "\<forall>c \<in> set (take (spaceWidth s) s). asciiSpace c \<or> c \<in> \<Union> (set ` set unicodeSpaces)"
        using spaceWidth_bytes [OF True] by blast
      moreover have "set s = set (take (spaceWidth s) s) \<union> set (drop (spaceWidth s) s)"
        by (metis append_take_drop_id set_append)
      ultimately show ?thesis
        using cur by blast
    next
      case noSpace: False
      with False "1.prems" have "fieldsFrom (cur @ [hd s]) (tl s) = []"
        by (subst (asm) fieldsFrom.simps) simp
      from "1.IH"(2) [OF False noSpace this] show ?thesis
        by simp
    qed
  qed
qed

lemma Fields_filter_line: "Contains line ''filter=lfs'' \<Longrightarrow> Fields line \<noteq> []"
proof
  assume "Contains line ''filter=lfs''" and "Fields line = []"
  then have "CHR ''f'' \<in> set line"
    and "\<forall>c \<in> set line. asciiSpace c \<or> c \<in> \<Union> (set ` set unicodeSpaces)"
    using Contains_head fieldsFrom_Nil [of "[]" line] by (auto simp add: Fields_def)
  then have "asciiSpace (CHR ''f'') \<or> CHR ''f'' \<in> \<Union> (set ` set unicodeSpaces)"
    by blast
  then show False
    by (simp add: asciiSpace_def unicodeSpaces_def)
qed

subsection \<open>The flag \<open>--not-lockable\<close>\<close>

lemma findAttributeFiles_notLockable:
  "findAttributeFiles (e\<lparr>trackNotLockableFlag := b\<rparr>) = findAttributeFiles e"
  by (simp add: findAttributeFiles_def)

lemma lineEntry_notLockable:
  "lineEntry (e\<lparr>trackNotLockableFlag := b\<rparr>) = lineEntry e"
  by (intro ext) (simp add: lineEntry_def cong: list.case_cong)

lemma findPaths_notLockable:
  "findPaths (e\<lparr>trackNotLockableFlag := b\<rparr>) = findPaths e"
  by (simp add: findPaths_def findAttributeFiles_notLockable lineEntry_notLockable
      cong: option.case_cong)

lemma alreadySupported_notLockable:
  "alreadySupported (e\<lparr>trackNotLockableFlag := b\<rparr>) = alreadySupported e"
  by (intro ext) (simp add: alreadySupported_def)

lemma argsLoop_notLockable:
  "argsLoop (e\<lparr>trackNotLockableFlag := b\<rparr>) knownPaths relpath args st
     = argsLoop e knownPaths relpath args st"
  by (induction e knownPaths relpath args st rule: argsLoop.induct)
     (simp_all add: alreadySupported_notLockable Let_def)

lemma touch_notLockable:
  "touch (e\<lparr>trackNotLockableFlag := b\<rparr>) = touch e"
  by (intro ext) (simp add: touch_def Let_def)

lemma trackPattern_notLockable:
  "trackPattern (e\<lparr>trackNotLockableFlag := b\<rparr>) = trackPattern e"
  by (intro ext)
     (simp add: trackPattern_def touch_notLockable Let_def split: option.splits prod.splits)

lemma rangeLoop_notLockable:
  "rangeLoop (e\<lparr>trackNotLockableFlag := b\<rparr>) entries st = rangeLoop e entries st"
  by (induction entries arbitrary: st) (simp_all add: trackPattern_notLockable Let_def)

text \<open>
  Claim C10. The flag \<open>--not-lockable\<close> is registered and never read: whatever the
  arguments, the rule files and the work tree are, the command prints the same lines,
  writes the same bytes to \<open>.gitattributes\<close>, sets the times of the same files and ends
  the same way with the flag set as with the flag not set.
\<close>

theorem trackNotLockableFlag_inert:
  "trackCommand (e\<lparr>trackNotLockableFlag := True\<rparr>) args
     = trackCommand (e\<lparr>trackNotLockableFlag := False\<rparr>) args"
  by (simp add: trackCommand_def findPaths_notLockable argsLoop_notLockable
      rangeLoop_notLockable Let_def split: readResult.splits prod.splits)

theorem trackNotLockableFlag_inert_witness:
  "trackCommand (emptyRepo\<lparr>trackNotLockableFlag := True\<rparr>) [''*.txt'']
     = \<lparr>printed = [Tracking ''*.txt''],
        written = Some (''*.txt filter=lfs diff=lfs merge=lfs -text'' @ [CHR 0x0A]),
        touched = [], ending = Returns\<rparr>"
proof -
  have "trackCommand (emptyRepo\<lparr>trackNotLockableFlag := False\<rparr>) [''*.txt'']
          = \<lparr>printed = [Tracking ''*.txt''],
             written = Some (''*.txt filter=lfs diff=lfs merge=lfs -text'' @ [CHR 0x0A]),
             touched = [], ending = Returns\<rparr>"
    by code_simp
  with trackNotLockableFlag_inert [of emptyRepo "[''*.txt'']"] show ?thesis
    by simp
qed

subsection \<open>The order of the rule files\<close>

lemma reversePaths_length: "length (reversePaths i j paths) = length paths"
proof (induction i j paths rule: reversePaths.induct)
  case (1 i j paths)
  then show ?case
    by (subst reversePaths.simps) simp
qed

lemma reversePaths_nth:
  "0 \<le> i \<Longrightarrow> j < int (length paths) \<Longrightarrow> k < length paths \<Longrightarrow>
   reversePaths i j paths ! k
     = (if i \<le> int k \<and> int k \<le> j then paths ! nat (i + j - int k) else paths ! k)"
proof (induction i j paths rule: reversePaths.induct)
  case (1 i j paths)
  show ?case
  proof (cases "i < j")
    case False
    then have "reversePaths i j paths = paths"
      by (subst reversePaths.simps) simp
    moreover from False have "i \<le> int k \<and> int k \<le> j \<Longrightarrow> nat (i + j - int k) = k"
      by linarith
    ultimately show ?thesis
      by auto
  next
    case True
    let ?swapped = "paths[nat i := paths ! nat j, nat j := paths ! nat i]"
    have step: "reversePaths i j paths = reversePaths (i + 1) (j - 1) ?swapped"
      using True by (subst reversePaths.simps) simp
    have ih: "reversePaths (i + 1) (j - 1) ?swapped ! k
        = (if i + 1 \<le> int k \<and> int k \<le> j - 1
           then ?swapped ! nat (i + 1 + (j - 1) - int k) else ?swapped ! k)"
      using "1.IH" [OF True] "1.prems" by simp
    have bounds: "nat i < length paths" "nat j < length paths" "nat i \<noteq> nat j"
      using True "1.prems" by linarith+
    show ?thesis
    proof (cases "i + 1 \<le> int k \<and> int k \<le> j - 1")
      case inner: True
      then have "nat (i + j - int k) \<noteq> nat i" "nat (i + j - int k) \<noteq> nat j"
        using "1.prems" by linarith+
      with inner show ?thesis
        by (simp add: step ih)
    next
      case outer: False
      then have out: "reversePaths i j paths ! k = ?swapped ! k"
        unfolding step ih by auto
      consider "int k = i" | "int k = j" | "int k < i \<or> j < int k"
        using outer by linarith
      then show ?thesis
      proof cases
        case 1
        then have "k = nat i"
          by simp
        with bounds have "?swapped ! k = paths ! nat j"
          by simp
        moreover from 1 have "nat (i + j - int k) = nat j"
          by simp
        ultimately show ?thesis
          using 1 True out by simp
      next
        case 2
        then have "k = nat j"
          by simp
        with bounds have "?swapped ! k = paths ! nat i"
          by simp
        moreover from 2 have "nat (i + j - int k) = nat i"
          by simp
        ultimately show ?thesis
          using 2 True out "1.prems" by simp
      next
        case 3
        then have "k \<noteq> nat i" "k \<noteq> nat j"
          using "1.prems" True by linarith+
        then have "?swapped ! k = paths ! k"
          by simp
        with 3 out show ?thesis
          by auto
      qed
    qed
  qed
qed

lemma reversePaths_rev: "reversePaths 0 (int (length paths) - 1) paths = rev paths"
proof (rule nth_equalityI)
  show "length (reversePaths 0 (int (length paths) - 1) paths) = length (rev paths)"
    by (simp add: reversePaths_length)
next
  fix k
  assume "k < length (reversePaths 0 (int (length paths) - 1) paths)"
  then have k: "k < length paths"
    by (simp add: reversePaths_length)
  then have "nat (int (length paths) - 1 - int k) = length paths - Suc k"
    by linarith
  with k show "reversePaths 0 (int (length paths) - 1) paths ! k = rev paths ! k"
    by (simp add: reversePaths_nth rev_nth)
qed

lemma walk_appends:
  "walk path node ps = (ps @ fst (walk path node []), snd (walk path node []))"
proof (induction node arbitrary: path ps)
  case (Directory entries)
  have names: "walkNames path es ps
      = (ps @ fst (walkNames path es []), snd (walkNames path es []))"
    if "set es \<subseteq> set entries" for es ps
    using that
  proof (induction es arbitrary: ps)
    case Nil
    show ?case by simp
  next
    case (Cons entry es)
    obtain found err where w: "walk (Join [path, fst entry]) (snd entry) [] = (found, err)"
      by (cases "walk (Join [path, fst entry]) (snd entry) []")
    have "entry \<in> set entries" "snd entry \<in> Basic_BNFs.snds entry"
      using Cons.prems by (auto intro: snds.intros)
    from Directory.IH [OF this, of "Join [path, fst entry]"] w
    have w': "walk (Join [path, fst entry]) (snd entry) qs = (qs @ found, err)" for qs
      by (metis fst_conv snd_conv)
    from Cons.prems have "set es \<subseteq> set entries"
      by simp
    from Cons.IH [OF this] have tail: "walkNames path es qs
        = (qs @ fst (walkNames path es []), snd (walkNames path es []))" for qs .
    show ?case
    proof (cases err)
      case None
      have "walkNames path (entry # es) ps = walkNames path es (ps @ found)"
        using w' [of ps] None by simp
      also have "\<dots> = (ps @ found @ fst (walkNames path es []), snd (walkNames path es []))"
        by (subst tail) simp
      finally have left: "walkNames path (entry # es) ps
          = (ps @ found @ fst (walkNames path es []), snd (walkNames path es []))" .
      have "walkNames path (entry # es) [] = walkNames path es found"
        using w' [of "[]"] None by simp
      also have "\<dots> = (found @ fst (walkNames path es []), snd (walkNames path es []))"
        by (rule tail)
      finally have right: "walkNames path (entry # es) []
          = (found @ fst (walkNames path es []), snd (walkNames path es []))" .
      show ?thesis
        unfolding left right by simp
    next
      case (Some e)
      then show ?thesis
        using w' [of ps] w' [of "[]"] by simp
    qed
  qed
  have here: "walk path (Directory entries) qs = walkNames path entries qs" for qs
    by (simp add: walkFn_def)
  have "walkNames path entries ps
      = (ps @ fst (walkNames path entries []), snd (walkNames path entries []))"
    by (rule names) simp
  then show ?case
    unfolding here .
qed (simp_all add: walkFn_def)

lemma findAttributeFiles_eq:
  "findAttributeFiles e =
     rev (fst (walk (config_LocalWorkingDir e) (tree e) []))
     @ (case os_Stat e (Join [config_LocalGitDir e, ''info'', ''attributes'']) of
          Some False \<Rightarrow> [Join [config_LocalGitDir e, ''info'', ''attributes'']]
        | _ \<Rightarrow> [])"
  by (simp add: findAttributeFiles_def Let_def reversePaths_rev
       walk_appends [of _ _ "_ # _"] split: option.splits bool.splits)

text \<open>
  Claim C9. When the rule file \<open>info/attributes\<close> of the repository's directory exists
  and is not a directory, and the walk of the work tree finds at least one rule file,
  the list \<open>findAttributeFiles\<close> returns has that file in its last position, after the
  files of the walk in the reverse of the order in which the walk met them: the
  reversal is applied to the whole list, the repository's file included.
\<close>

theorem repoAttributes_last:
  assumes "os_Stat e (Join [config_LocalGitDir e, ''info'', ''attributes'']) = Some False"
    and "fst (walk (config_LocalWorkingDir e) (tree e) []) \<noteq> []"
  shows "findAttributeFiles e
           = rev (fst (walk (config_LocalWorkingDir e) (tree e) []))
             @ [Join [config_LocalGitDir e, ''info'', ''attributes'']]
         \<and> last (findAttributeFiles e) = Join [config_LocalGitDir e, ''info'', ''attributes'']
         \<and> 1 < length (findAttributeFiles e)"
  using assms by (cases "fst (walk (config_LocalWorkingDir e) (tree e) [])")
    (simp_all add: findAttributeFiles_eq)

theorem repoAttributes_last_witness:
  "findAttributeFiles nestedRepo
     = [''/repo/docs/.gitattributes'', ''/repo/.gitattributes'', ''/repo/.git/info/attributes'']
   \<and> last (findAttributeFiles nestedRepo) = ''/repo/.git/info/attributes''"
proof -
  have repoAttributes:
    "Join [config_LocalGitDir nestedRepo, ''info'', ''attributes''] = ''/repo/.git/info/attributes''"
    by code_simp
  have stat: "os_Stat nestedRepo (Join [config_LocalGitDir nestedRepo, ''info'', ''attributes''])
      = Some False"
    by code_simp
  have walked: "fst (walk (config_LocalWorkingDir nestedRepo) (tree nestedRepo) [])
      = [''/repo/.gitattributes'', ''/repo/docs/.gitattributes'']"
    by code_simp
  then have found: "fst (walk (config_LocalWorkingDir nestedRepo) (tree nestedRepo) []) \<noteq> []"
    by simp
  from repoAttributes_last [OF stat found] show ?thesis
    by (simp add: repoAttributes walked)
qed

subsection \<open>The loop over the patterns left in the map\<close>

lemma foldl_checkBlocklist:
  "foldl (checkBlocklist pattern) (st, b) gittracked
     = (st\<lparr>printed := printed st
            @ map (MatchesForbiddenFile pattern) (filter (\<lambda>f. blocklistItem f \<noteq> []) gittracked)\<rparr>,
        b \<or> (\<exists>f \<in> set gittracked. blocklistItem f \<noteq> []))"
  by (induction gittracked arbitrary: st b) (auto simp add: checkBlocklist_def print_def)

lemma foldl_touch_written: "written (foldl (touch e) st gittracked) = written st"
  by (induction gittracked arbitrary: st) (simp_all add: touch_def print_def Let_def)

lemma foldl_touch_ending: "ending (foldl (touch e) st gittracked) = ending st"
  by (induction gittracked arbitrary: st) (simp_all add: touch_def print_def Let_def)

lemma foldl_touch_touched:
  "touched (foldl (touch e) st gittracked)
     = touched st @ (if trackDryRunFlag e then [] else filter (os_Chtimes e) gittracked)"
  by (induction gittracked arbitrary: st) (simp_all add: touch_def print_def Let_def)

lemma trackPattern_written:
  "written (trackPattern e (pattern, newline) st)
     = map_option (\<lambda>file. file @ newline) (written st)"
  by (simp add: trackPattern_def Let_def foldl_checkBlocklist foldl_touch_written
      writeString_def print_def split: option.splits)

lemma trackPattern_ending:
  "ending (trackPattern e (pattern, newline) st)
     = (case git_GetTrackedFiles e pattern of None \<Rightarrow> ExitFatal | Some gittracked \<Rightarrow> ending st)"
  by (simp add: trackPattern_def Let_def foldl_checkBlocklist foldl_touch_ending
      writeString_def print_def split: option.splits)

lemma trackPattern_touched:
  "touched (trackPattern e (pattern, newline) st)
     = touched st
       @ (case git_GetTrackedFiles e pattern of
            None \<Rightarrow> []
          | Some gittracked \<Rightarrow>
              if (\<exists>f \<in> set gittracked. blocklistItem f \<noteq> []) \<or> trackDryRunFlag e then []
              else filter (os_Chtimes e) gittracked)"
  by (simp add: trackPattern_def Let_def foldl_checkBlocklist foldl_touch_touched
      writeString_def print_def split: option.splits)

lemma blocklistItem_iff:
  "blocklistItem name \<noteq> [] \<longleftrightarrow> (\<exists>p \<in> set prefixBlocklist. HasPrefix (Base name) p)"
  by (auto simp add: blocklistItem_def prefixBlocklist_def Let_def)

text \<open>
  Claim C3, as amended. The match of the blocklist is on the base name: a file is
  forbidden when its base name starts with \<open>.git\<close> or \<open>.lfs\<close>. When the tracked files
  git reports for a pattern left in the map include such a file \<open>f\<close> (as in the list
  \<open>.gitattributes\<close>, \<open>readme.txt\<close>), the iteration for that pattern prints the conflict for
  \<open>f\<close>, sets the times of none of the reported files, has appended the pattern's line
  to the rule file all the same, and does not end the command. The list
  \<open>.git/info/foo.txt\<close>, \<open>readme.txt\<close> of the claim holds no such file (the base names are
  \<open>foo.txt\<close> and \<open>readme.txt\<close>): no conflict is printed and both files are touched.
\<close>

theorem blocklist_veto:
  assumes "git_GetTrackedFiles e pattern = Some gittracked"
    and "f \<in> set gittracked"
    and "\<exists>p \<in> set prefixBlocklist. HasPrefix (Base f) p"
  shows "MatchesForbiddenFile pattern f \<in> set (printed (trackPattern e (pattern, newline) st))
       \<and> touched (trackPattern e (pattern, newline) st) = touched st
       \<and> written (trackPattern e (pattern, newline) st)
           = map_option (\<lambda>file. file @ newline) (written st)
       \<and> ending (trackPattern e (pattern, newline) st) = ending st"
proof -
  from assms(3) have blocked: "blocklistItem f \<noteq> []"
    by (simp add: blocklistItem_iff)
  with assms(2) have some: "\<exists>f \<in> set gittracked. blocklistItem f \<noteq> []"
    by blast
  have "MatchesForbiddenFile pattern f \<in> set (printed (trackPattern e (pattern, newline) st))"
    using assms(1,2) blocked
    by (simp add: trackPattern_def Let_def foldl_checkBlocklist print_def writeString_def some)
  with assms(1) some show ?thesis
    by (simp add: trackPattern_written trackPattern_ending trackPattern_touched)
qed

theorem blocklist_scenario_counterexample:
  "blocklistItem ''.git/info/foo.txt'' = []
   \<and> trackCommand fooTxtRepo [''*.txt'']
       = \<lparr>printed = [Tracking ''*.txt''],
          written = Some (''*.txt filter=lfs diff=lfs merge=lfs -text'' @ [CHR 0x0A]),
          touched = [''.git/info/foo.txt'', ''readme.txt''], ending = Returns\<rparr>"
  by code_simp

theorem blocklist_veto_witness:
  "trackCommand gitattributesRepo [''*.txt'']
       = \<lparr>printed = [Tracking ''*.txt'', MatchesForbiddenFile ''*.txt'' ''.gitattributes''],
          written = Some (''*.txt filter=lfs diff=lfs merge=lfs -text'' @ [CHR 0x0A]),
          touched = [], ending = Returns\<rparr>
   \<and> MatchesForbiddenFile ''*.txt'' ''.gitattributes''
       \<in> set (printed (trackPattern gitattributesRepo (''*.txt'', ''*.txt filter=lfs'')
                 \<lparr>printed = [], written = Some [], touched = [], ending = Returns\<rparr>))
   \<and> touched (trackPattern gitattributesRepo (''*.txt'', ''*.txt filter=lfs'')
                 \<lparr>printed = [], written = Some [], touched = [], ending = Returns\<rparr>) = []
   \<and> written (trackPattern gitattributesRepo (''*.txt'', ''*.txt filter=lfs'')
                 \<lparr>printed = [], written = Some [], touched = [], ending = Returns\<rparr>)
       = Some ''*.txt filter=lfs''"
proof -
  have tracked: "git_GetTrackedFiles gitattributesRepo ''*.txt'' = Some [''.gitattributes'', ''readme.txt'']"
    by code_simp
  have member: "''.gitattributes'' \<in> set [''.gitattributes'', ''readme.txt'']"
    by simp
  have forbidden: "\<exists>p \<in> set prefixBlocklist. HasPrefix (Base ''.gitattributes'') p"
    by code_simp
  have command: "trackCommand gitattributesRepo [''*.txt'']
       = \<lparr>printed = [Tracking ''*.txt'', MatchesForbiddenFile ''*.txt'' ''.gitattributes''],
          written = Some (''*.txt filter=lfs diff=lfs merge=lfs -text'' @ [CHR 0x0A]),
          touched = [], ending = Returns\<rparr>"
    by code_simp
  from blocklist_veto [OF tracked member forbidden, of "''*.txt filter=lfs''"
       "\<lparr>printed = [], written = Some [], touched = [], ending = Returns\<rparr>"] command
  show ?thesis
    by simp
qed

subsection \<open>The flag \<open>--dry-run\<close>\<close>

lemma findAttributeFiles_dryRun:
  "findAttributeFiles (e\<lparr>trackDryRunFlag := b\<rparr>) = findAttributeFiles e"
  by (simp add: findAttributeFiles_def)

lemma lineEntry_dryRun:
  "lineEntry (e\<lparr>trackDryRunFlag := b\<rparr>) = lineEntry e"
  by (intro ext) (simp add: lineEntry_def cong: list.case_cong)

lemma findPaths_dryRun:
  "findPaths (e\<lparr>trackDryRunFlag := b\<rparr>) = findPaths e"
  by (simp add: findPaths_def findAttributeFiles_dryRun lineEntry_dryRun
      cong: option.case_cong)

lemma alreadySupported_dryRun:
  "alreadySupported (e\<lparr>trackDryRunFlag := b\<rparr>) = alreadySupported e"
  by (intro ext) (simp add: alreadySupported_def)

lemma argsLoop_dryRun:
  "argsLoop (e\<lparr>trackDryRunFlag := b\<rparr>) knownPaths relpath args st
     = argsLoop e knownPaths relpath args st"
  by (induction e knownPaths relpath args st rule: argsLoop.induct)
     (simp_all add: alreadySupported_dryRun Let_def)

lemma rangeLoop_dryRun_related:
  "written st' = written st \<Longrightarrow> ending st' = ending st \<Longrightarrow>
   written (rangeLoop (e\<lparr>trackDryRunFlag := b\<rparr>) entries st') = written (rangeLoop e entries st)
   \<and> ending (rangeLoop (e\<lparr>trackDryRunFlag := b\<rparr>) entries st') = ending (rangeLoop e entries st)"
proof (induction entries arbitrary: st st')
  case Nil
  then show ?case by simp
next
  case (Cons entry entries)
  obtain pattern newline where entry: "entry = (pattern, newline)"
    by (cases entry)
  let ?e' = "e\<lparr>trackDryRunFlag := b\<rparr>"
  have w: "written (trackPattern ?e' entry st') = written (trackPattern e entry st)"
    using Cons.prems by (simp add: entry trackPattern_written)
  have x: "ending (trackPattern ?e' entry st') = ending (trackPattern e entry st)"
    using Cons.prems by (simp add: entry trackPattern_ending split: option.splits)
  from Cons.IH [OF w x] w x show ?case
    by (simp add: Let_def)
qed

lemma rangeLoop_dryRun_written:
  "written (rangeLoop (e\<lparr>trackDryRunFlag := b\<rparr>) entries st) = written (rangeLoop e entries st)"
  using rangeLoop_dryRun_related [of st st] by simp

lemma rangeLoop_dryRun_ending:
  "ending (rangeLoop (e\<lparr>trackDryRunFlag := b\<rparr>) entries st) = ending (rangeLoop e entries st)"
  using rangeLoop_dryRun_related [of st st] by simp

lemma rangeLoop_dryRun_touched:
  "trackDryRunFlag e \<Longrightarrow> touched (rangeLoop e entries st) = touched st"
proof (induction entries arbitrary: st)
  case Nil
  then show ?case by simp
next
  case (Cons entry entries)
  obtain pattern newline where entry: "entry = (pattern, newline)"
    by (cases entry)
  from Cons show ?case
    by (simp add: Let_def entry trackPattern_touched split: option.splits)
qed

text \<open>
  Claim C7. With \<open>--dry-run\<close> the command writes the same bytes to \<open>.gitattributes\<close> and
  ends the same way as without it, in the same environment (the same files, answers
  of git and order of visiting the map); and it sets the times of no file.
\<close>

theorem dryRun_only_skips_touching:
  "written (trackCommand (e\<lparr>trackDryRunFlag := True\<rparr>) args)
     = written (trackCommand (e\<lparr>trackDryRunFlag := False\<rparr>) args)
   \<and> ending (trackCommand (e\<lparr>trackDryRunFlag := True\<rparr>) args)
     = ending (trackCommand (e\<lparr>trackDryRunFlag := False\<rparr>) args)
   \<and> touched (trackCommand (e\<lparr>trackDryRunFlag := True\<rparr>) args) = []"
  by (simp add: trackCommand_def findPaths_dryRun argsLoop_dryRun rangeLoop_dryRun_written
      rangeLoop_dryRun_ending rangeLoop_dryRun_touched print_def Let_def
      split: readResult.splits prod.splits)

theorem dryRun_only_skips_touching_witness:
  "written (trackCommand (readmeRepo\<lparr>trackDryRunFlag := True\<rparr>) [''*.txt''])
     = Some (''*.txt filter=lfs diff=lfs merge=lfs -text'' @ [CHR 0x0A])
   \<and> touched (trackCommand (readmeRepo\<lparr>trackDryRunFlag := True\<rparr>) [''*.txt'']) = []
   \<and> touched (trackCommand (readmeRepo\<lparr>trackDryRunFlag := False\<rparr>) [''*.txt'']) = [''readme.txt'']"
proof -
  have "trackCommand (readmeRepo\<lparr>trackDryRunFlag := False\<rparr>) [''*.txt'']
          = \<lparr>printed = [Tracking ''*.txt''],
             written = Some (''*.txt filter=lfs diff=lfs merge=lfs -text'' @ [CHR 0x0A]),
             touched = [''readme.txt''], ending = Returns\<rparr>"
    by code_simp
  with dryRun_only_skips_touching [of readmeRepo "[''*.txt'']"] show ?thesis
    by simp
qed

subsection \<open>The order of the appended lines\<close>

lemma mset_rangeMap: "mset (rangeMap choices entries) = mset entries"
proof (induction choices entries rule: rangeMap.induct)
  case (1 choices entries)
  show ?case
  proof (cases "entries = []")
    case True
    then show ?thesis
      by (subst rangeMap.simps) simp
  next
    case False
    show ?thesis
    proof (cases choices)
      case Nil
      with False show ?thesis
        by (subst rangeMap.simps) simp
    next
      case (Cons n ns)
      let ?i = "n mod length entries"
      from False have i: "?i < length entries"
        by simp
      have "mset (rangeMap choices entries)
          = {#entries ! ?i#} + mset (rangeMap ns (take ?i entries @ drop (Suc ?i) entries))"
        using False Cons by (subst rangeMap.simps) (simp add: Let_def)
      also have "\<dots> = {#entries ! ?i#} + mset (take ?i entries @ drop (Suc ?i) entries)"
        using "1.IH" [OF False Cons refl] by simp
      also have "\<dots> = mset (take ?i entries @ entries ! ?i # drop (Suc ?i) entries)"
        by simp
      also have "\<dots> = mset entries"
        using id_take_nth_drop [OF i] by simp
      finally show ?thesis .
    qed
  qed
qed

lemma rangeLoop_all_tracked:
  "\<forall>entry \<in> set entries. git_GetTrackedFiles e (fst entry) \<noteq> None \<Longrightarrow> ending st = Returns \<Longrightarrow>
   written (rangeLoop e entries st) = map_option (\<lambda>file. file @ concat (map snd entries)) (written st)
   \<and> ending (rangeLoop e entries st) = Returns"
proof (induction entries arbitrary: st)
  case Nil
  then show ?case
    by (simp add: option.map_ident)
next
  case (Cons entry entries)
  obtain pattern newline where entry: "entry = (pattern, newline)"
    by (cases entry)
  from Cons.prems have x: "ending (trackPattern e entry st) = Returns"
    by (auto simp add: entry trackPattern_ending)
  from Cons.prems have "\<forall>entry \<in> set entries. git_GetTrackedFiles e (fst entry) \<noteq> None"
    by simp
  from Cons.IH [OF this x] x show ?case
    by (simp add: entry trackPattern_written option.map_comp comp_def)
qed

lemma rangeMap_any_order:
  "mset perm = mset entries \<Longrightarrow> \<exists>choices. rangeMap choices entries = perm"
proof (induction perm arbitrary: entries)
  case Nil
  then have "rangeMap [] entries = []"
    by (subst rangeMap.simps) simp
  then show ?case ..
next
  case (Cons x perm)
  then have "x \<in> set entries"
    by (metis list.set_intros(1) set_mset_mset)
  then obtain i where i: "i < length entries" "entries ! i = x"
    by (auto simp add: in_set_conv_nth)
  let ?rest = "take i entries @ drop (Suc i) entries"
  have "mset entries = mset (take i entries @ entries ! i # drop (Suc i) entries)"
    using id_take_nth_drop [OF i(1)] by simp
  with Cons.prems i(2) have "mset perm = mset ?rest"
    by simp
  from Cons.IH [OF this] obtain ns where ns: "rangeMap ns ?rest = perm" ..
  from i have "entries \<noteq> []"
    by auto
  with i ns have "rangeMap (i # ns) entries = x # perm"
    by (subst rangeMap.simps) (simp add: Let_def)
  then show ?case ..
qed

text \<open>
  Claim C6, as amended. The lines of the patterns left in the map after the scan of the
  old contents are appended to what has been written, each once, in the order in
  which \<open>range\<close> visits the map (when no enumeration of tracked files fails, which
  would end the command in the middle of the loop). That order is a permutation of the
  entries that the language leaves unspecified, and every permutation is the order of
  some run: it need not be the order in which ArgsLoop met the patterns.
\<close>

theorem appended_in_range_order:
  assumes "\<forall>entry \<in> set changedAttribLines. git_GetTrackedFiles e (fst entry) \<noteq> None"
    and "ending st = Returns"
  shows "written (rangeLoop e (rangeMap (rangeOrder e) changedAttribLines) st)
           = map_option (\<lambda>file. file @ concat (map snd (rangeMap (rangeOrder e) changedAttribLines)))
               (written st)
         \<and> mset (rangeMap (rangeOrder e) changedAttribLines) = mset changedAttribLines
         \<and> (\<forall>order. mset order = mset changedAttribLines
               \<longrightarrow> (\<exists>choices. rangeMap choices changedAttribLines = order))"
proof -
  have "set (rangeMap (rangeOrder e) changedAttribLines) = set changedAttribLines"
    using mset_rangeMap [of "rangeOrder e" changedAttribLines] by (metis set_mset_mset)
  with assms(1)
  have "\<forall>entry \<in> set (rangeMap (rangeOrder e) changedAttribLines).
          git_GetTrackedFiles e (fst entry) \<noteq> None"
    by simp
  from rangeLoop_all_tracked [OF this assms(2)] show ?thesis
    by (simp add: mset_rangeMap rangeMap_any_order)
qed

theorem appended_in_range_order_witness:
  "written (rangeLoop shuffledRepo
      (rangeMap (rangeOrder shuffledRepo) [(''a'', ''a -text''), (''b'', ''b -text'')])
      \<lparr>printed = [], written = Some ''old'', touched = [], ending = Returns\<rparr>)
     = Some ''oldb -texta -text''"
proof -
  have tracked: "\<forall>entry \<in> set [(''a'', ''a -text''), (''b'', ''b -text'')].
      git_GetTrackedFiles shuffledRepo (fst entry) \<noteq> None"
    by (simp add: shuffledRepo_def emptyRepo_def)
  have returns: "ending \<lparr>printed = [], written = Some ''old'', touched = [], ending = Returns\<rparr> = Returns"
    by simp
  have order: "rangeMap (rangeOrder shuffledRepo) [(''a'', ''a -text''), (''b'', ''b -text'')]
      = [(''b'', ''b -text''), (''a'', ''a -text'')]"
    by code_simp
  from appended_in_range_order [OF tracked returns] show ?thesis
    by (simp add: order)
qed

theorem append_order_counterexample:
  "trackCommand shuffledRepo [''a'', ''b'']
     = \<lparr>printed = [Tracking ''a'', Tracking ''b''],
        written = Some (''b filter=lfs diff=lfs merge=lfs -text'' @ [CHR 0x0A]
                        @ ''a filter=lfs diff=lfs merge=lfs -text'' @ [CHR 0x0A]),
        touched = [], ending = Returns\<rparr>"
  by code_simp

subsection \<open>The merge of the old contents\<close>

lemma firstField_Cons: "Fields line = pattern # rest \<Longrightarrow> firstField line = pattern"
  by (simp add: firstField_def)

lemma mergedLine_0_Some:
  "map_of m (firstField line) = Some newline \<Longrightarrow> mergedLine m (line # lines) 0 = newline"
  by (simp add: mergedLine_def)

lemma mergedLine_0_None:
  "map_of m (firstField line) = None \<Longrightarrow> mergedLine m (line # lines) 0 = line @ [CHR 0x0A]"
  by (simp add: mergedLine_def)

lemma mergedLine_Suc_delete:
  "map_of m (firstField line) = Some newline \<Longrightarrow>
   mergedLine m (line # lines) (Suc i) = mergedLine (AList.delete (firstField line) m) lines i"
  by (auto simp add: mergedLine_def delete_conv' split: option.splits)

lemma mergedLine_Suc_keep:
  "map_of m (firstField line) = None \<Longrightarrow>
   mergedLine m (line # lines) (Suc i) = mergedLine m lines i"
  by (auto simp add: mergedLine_def split: option.splits)

lemma mergedLines_Cons:
  "map (mergedLine m (line # lines)) [0..<length (line # lines)]
     = mergedLine m (line # lines) 0 # map (\<lambda>i. mergedLine m (line # lines) (Suc i)) [0..<length lines]"
  by (simp add: upt_conv_Cons map_Suc_upt [symmetric] del: upt_Suc)

lemma mergeLoop_eq:
  assumes "\<forall>line \<in> set lines. Fields line \<noteq> []"
  shows "mergeLoop lines changedAttribLines bytes
           = (False,
              bytes @ concat (map (mergedLine changedAttribLines lines) [0..<length lines]),
              filter (\<lambda>entry. fst entry \<notin> firstField ` set lines) changedAttribLines)"
  using assms
proof (induction lines arbitrary: changedAttribLines bytes)
  case Nil
  show ?case by simp
next
  case (Cons line lines)
  from Cons.prems obtain pattern rest where fields: "Fields line = pattern # rest"
    by (cases "Fields line") auto
  then have first: "firstField line = pattern"
    by (rule firstField_Cons)
  from Cons.prems have tail: "\<forall>line \<in> set lines. Fields line \<noteq> []"
    by simp
  show ?case
  proof (cases "map_of changedAttribLines pattern")
    case None
    then have "filter (\<lambda>entry. fst entry \<notin> firstField ` set (line # lines)) changedAttribLines
        = filter (\<lambda>entry. fst entry \<notin> firstField ` set lines) changedAttribLines"
      by (intro filter_cong refl) (auto simp add: first map_of_eq_None_iff)
    with None show ?thesis
      unfolding mergedLines_Cons
      by (simp add: fields first Cons.IH [OF tail] mergedLine_0_None mergedLine_Suc_keep)
  next
    case (Some newline)
    have "filter (\<lambda>entry. fst entry \<notin> firstField ` set (line # lines)) changedAttribLines
        = filter (\<lambda>entry. fst entry \<notin> firstField ` set lines) (AList.delete pattern changedAttribLines)"
      by (induction changedAttribLines) (auto simp add: first)
    with Some show ?thesis
      unfolding mergedLines_Cons
      by (simp add: fields first Cons.IH [OF tail] mergedLine_0_Some mergedLine_Suc_delete)
  qed
qed

text \<open>
  Claim C2, as amended. Let the lines of the old contents be those the scanner delivers
  (each without its line feed and without one carriage return before it; a line of
  \<open>MaxScanTokenSize\<close> bytes or more ends the scan), and let each of them have a first
  field. Then the rewritten file has one line for each of them, in the same order: a
  line whose first field is not a key of the map is kept as it is, followed by one line
  feed; for each key, the first line whose first field is that key is replaced in its
  place by the key's new line, and the key leaves the map, so that its line is not
  appended again after the scan; a later line with the same first field is kept as it
  is. The keys that are the first field of no line stay in the map.
\<close>

theorem merge_in_place:
  assumes "\<forall>line \<in> set (scanLines attribContents). Fields line \<noteq> []"
  shows "mergeLoop (scanLines attribContents) changedAttribLines []
           = (False,
              concat (map (mergedLine changedAttribLines (scanLines attribContents))
                        [0..<length (scanLines attribContents)]),
              filter (\<lambda>entry. fst entry \<notin> firstField ` set (scanLines attribContents))
                changedAttribLines)"
  using mergeLoop_eq [OF assms, of changedAttribLines "[]"] by simp

theorem merge_in_place_witness:
  "mergeLoop (scanLines twiceAttributes)
      [(''*.bin'', ''*.bin filter=lfs''), (''*.png'', ''*.png filter=lfs'')] []
     = (False, ''*.bin filter=lfs*.bin -diff'' @ [CHR 0x0A], [(''*.png'', ''*.png filter=lfs'')])"
proof -
  have fields: "\<forall>line \<in> set (scanLines twiceAttributes). Fields line \<noteq> []"
    by code_simp
  have merged: "concat (map (mergedLine [(''*.bin'', ''*.bin filter=lfs''), (''*.png'', ''*.png filter=lfs'')]
                          (scanLines twiceAttributes)) [0..<length (scanLines twiceAttributes)])
      = ''*.bin filter=lfs*.bin -diff'' @ [CHR 0x0A]"
    by code_simp
  have left: "filter (\<lambda>entry. fst entry \<notin> firstField ` set (scanLines twiceAttributes))
                [(''*.bin'', ''*.bin filter=lfs''), (''*.png'', ''*.png filter=lfs'')]
      = [(''*.png'', ''*.png filter=lfs'')]"
    by code_simp
  from merge_in_place [OF fields] show ?thesis
    by (simp only: merged left)
qed

theorem merge_in_place_counterexample:
  "trackCommand (repoWith twiceAttributes) [''*.bin'']
     = \<lparr>printed = [Tracking ''*.bin''],
        written = Some (''*.bin filter=lfs diff=lfs merge=lfs -text'' @ [CHR 0x0A]
                        @ ''*.bin -diff'' @ [CHR 0x0A]),
        touched = [], ending = Returns\<rparr>"
  by code_simp

text \<open>
  Claim C8 says that the merge does not fail on a line that is not a pattern line, an
  empty line included, and emits the line again. The code does so for a line that has
  a first field; on a line that has none (an empty line, or one of white space only),
  \<open>fields[0]\<close> panics. Here the old contents are
  two rules with an empty line between them: the command ends in the panic, after the
  file was truncated and the first line written back, so the second rule is lost.
\<close>

theorem blank_line_panics:
  "Fields [] = [] \<and> Fields [CHR 0x20, CHR 0x09] = []
   \<and> trackCommand (repoWith blankLineAttributes) [''*.txt'']
     = \<lparr>printed = [Tracking ''*.txt''],
        written = Some (''*.bin filter=lfs diff=lfs merge=lfs -text'' @ [CHR 0x0A]),
        touched = [], ending = Panics\<rparr>"
  by code_simp

subsection \<open>A walk that fails\<close>

lemma walkNames_stops:
  "snd (walkNames path before paths) = Some err \<Longrightarrow>
   walkNames path (before @ after) paths = walkNames path before paths"
proof (induction before arbitrary: paths)
  case Nil
  then show ?case by simp
next
  case (Cons entry before)
  obtain paths' result where w: "walk (Join [path, fst entry]) (snd entry) paths = (paths', result)"
    by (cases "walk (Join [path, fst entry]) (snd entry) paths")
  show ?case
  proof (cases result)
    case None
    with w Cons.prems have "snd (walkNames path before paths') = Some err"
      by simp
    from Cons.IH [OF this] w None show ?thesis
      by simp
  next
    case (Some e)
    with w show ?thesis
      by simp
  qed
qed

lemma walk_Directory: "walk path (Directory entries) paths = walkNames path entries paths"
  by (simp add: walkFn_def)

lemma lineEntry_tree: "lineEntry (e\<lparr>tree := t\<rparr>) = lineEntry e"
  by (intro ext) (simp add: lineEntry_def cong: list.case_cong)

lemma findAttributeFiles_tree:
  "fst (walk (config_LocalWorkingDir e) t []) = fst (walk (config_LocalWorkingDir e) (tree e) [])
   \<Longrightarrow> findAttributeFiles (e\<lparr>tree := t\<rparr>) = findAttributeFiles e"
  by (simp add: findAttributeFiles_eq cong: option.case_cong bool.case_cong)

lemma findPaths_tree:
  "fst (walk (config_LocalWorkingDir e) t []) = fst (walk (config_LocalWorkingDir e) (tree e) [])
   \<Longrightarrow> findPaths (e\<lparr>tree := t\<rparr>) = findPaths e"
  by (simp add: findPaths_def findAttributeFiles_tree lineEntry_tree cong: option.case_cong)

lemma alreadySupported_tree: "alreadySupported (e\<lparr>tree := t\<rparr>) = alreadySupported e"
  by (intro ext) (simp add: alreadySupported_def)

lemma argsLoop_tree:
  "argsLoop (e\<lparr>tree := t\<rparr>) knownPaths relpath args st = argsLoop e knownPaths relpath args st"
  by (induction e knownPaths relpath args st rule: argsLoop.induct)
     (simp_all add: alreadySupported_tree Let_def)

lemma touch_tree: "touch (e\<lparr>tree := t\<rparr>) = touch e"
  by (intro ext) (simp add: touch_def Let_def)

lemma trackPattern_tree: "trackPattern (e\<lparr>tree := t\<rparr>) = trackPattern e"
  by (intro ext)
     (simp add: trackPattern_def touch_tree Let_def split: option.splits prod.splits)

lemma rangeLoop_tree: "rangeLoop (e\<lparr>tree := t\<rparr>) entries st = rangeLoop e entries st"
  by (induction entries arbitrary: st) (simp_all add: trackPattern_tree Let_def)

lemma trackCommand_tree:
  assumes "fst (walk (config_LocalWorkingDir e) t []) = fst (walk (config_LocalWorkingDir e) (tree e) [])"
  shows "trackCommand (e\<lparr>tree := t\<rparr>) args = trackCommand e args"
  by (simp add: trackCommand_def findPaths_tree [OF assms] argsLoop_tree rangeLoop_tree Let_def
      split: readResult.splits prod.splits)

text \<open>
  Claim C5, as amended. A failure of the walk on some entry ends the walk: the entries
  after it are not visited. The error that \<open>filepath.Walk\<close> returns is not kept:
  \<open>findAttributeFiles\<close> returns the rule files met before the failure (as it would for
  a work tree that ends there), and the command goes on with them, exactly as it does
  for a work tree in which the walk meets the same rule files and does not fail.
\<close>

theorem walk_error_not_fatal:
  assumes "tree e = Directory (before @ after)"
    and "snd (walkNames (config_LocalWorkingDir e) before []) = Some err"
  shows "walk (config_LocalWorkingDir e) (tree e) []
           = (fst (walkNames (config_LocalWorkingDir e) before []), Some err)
         \<and> findAttributeFiles e = findAttributeFiles (e\<lparr>tree := Directory before\<rparr>)
         \<and> (\<forall>t. fst (walk (config_LocalWorkingDir e) t [])
                    = fst (walkNames (config_LocalWorkingDir e) before [])
               \<longrightarrow> trackCommand e args = trackCommand (e\<lparr>tree := t\<rparr>) args)"
proof -
  have stops: "walk (config_LocalWorkingDir e) (tree e) []
      = walkNames (config_LocalWorkingDir e) before []"
    unfolding assms(1) walk_Directory using walkNames_stops [OF assms(2)] by simp
  then have "walk (config_LocalWorkingDir e) (tree e) []
      = (fst (walkNames (config_LocalWorkingDir e) before []), Some err)"
    using assms(2) by (metis prod.collapse)
  moreover have "findAttributeFiles e = findAttributeFiles (e\<lparr>tree := Directory before\<rparr>)"
    by (rule findAttributeFiles_tree [symmetric]) (simp add: stops walk_Directory del: walk.simps)
  moreover have "trackCommand e args = trackCommand (e\<lparr>tree := t\<rparr>) args"
    if "fst (walk (config_LocalWorkingDir e) t [])
          = fst (walkNames (config_LocalWorkingDir e) before [])" for t
    using trackCommand_tree [of e t args] that stops by simp
  ultimately show ?thesis
    by blast
qed

theorem walk_error_counterexample:
  "walk (config_LocalWorkingDir unreadableRepo) (tree unreadableRepo) []
     = ([''/repo/.gitattributes''], Some ReadDirError)
   \<and> findAttributeFiles unreadableRepo = [''/repo/.gitattributes'']
   \<and> trackCommand unreadableRepo [''*.txt'']
       = \<lparr>printed = [Tracking ''*.txt''],
          written = Some (''*.txt filter=lfs diff=lfs merge=lfs -text'' @ [CHR 0x0A]),
          touched = [], ending = Returns\<rparr>"
  by code_simp

theorem walk_error_not_fatal_witness:
  "findAttributeFiles unreadableRepo
     = findAttributeFiles (unreadableRepo\<lparr>tree := Directory [(''.gitattributes'', File), (''cache'', UnreadableDirectory)]\<rparr>)
   \<and> trackCommand unreadableRepo [''*.txt'']
     = trackCommand (unreadableRepo\<lparr>tree := Directory [(''.gitattributes'', File)]\<rparr>) [''*.txt'']"
proof -
  have t: "tree unreadableRepo
      = Directory ([(''.gitattributes'', File), (''cache'', UnreadableDirectory)]
                   @ [(''docs'', Directory [(''.gitattributes'', File)])])"
    by (simp add: unreadableRepo_def)
  have failed: "snd (walkNames (config_LocalWorkingDir unreadableRepo)
                  [(''.gitattributes'', File), (''cache'', UnreadableDirectory)] []) = Some ReadDirError"
    by code_simp
  have same: "fst (walk (config_LocalWorkingDir unreadableRepo) (Directory [(''.gitattributes'', File)]) [])
      = fst (walkNames (config_LocalWorkingDir unreadableRepo)
               [(''.gitattributes'', File), (''cache'', UnreadableDirectory)] [])"
    by code_simp
  from walk_error_not_fatal [OF t failed, of "[''*.txt'']"] same show ?thesis
    by blast
qed

subsection \<open>Facts about the string functions\<close>

lemma HasPrefix_append: "HasPrefix s w \<Longrightarrow> HasPrefix (s @ r) w"
  by (induction s w rule: HasPrefix.induct) simp_all

lemma HasPrefix_cut: "HasPrefix (s @ x # r) w \<Longrightarrow> x \<notin> set w \<Longrightarrow> HasPrefix s w"
  by (induction s w rule: HasPrefix.induct) (auto elim: HasPrefix.elims)

lemma Contains_append: "Contains s sub \<Longrightarrow> Contains (p @ s) sub"
  by (induction p) simp_all

lemma Contains_prepend: "Contains p sub \<Longrightarrow> Contains (p @ s) sub"
proof (induction p)
  case Nil
  then show ?case by (cases s) simp_all
next
  case (Cons c p)
  then show ?case
    using HasPrefix_append [of "c # p" sub s] by auto
qed

lemma Contains_across:
  "x \<notin> set sub \<Longrightarrow> sub \<noteq> [] \<Longrightarrow>
   Contains (p @ x # t) sub = (Contains p sub \<or> Contains t sub)"
proof (induction p)
  case Nil
  then obtain y ys where "sub = y # ys" "y \<noteq> x"
    by (cases sub) auto
  then show ?case by simp
next
  case (Cons c p)
  have "HasPrefix (c # p @ x # t) sub = HasPrefix (c # p) sub"
    using HasPrefix_cut [of "c # p" x t sub] HasPrefix_append [of "c # p" sub "x # t"] Cons.prems
    by auto
  with Cons show ?case
    by auto
qed

lemma Replace_absent: "x \<notin> set s \<Longrightarrow> Replace s [x] new = s"
proof (induction s)
  case Nil
  show ?case by (subst Replace.simps) simp
next
  case (Cons c s)
  then show ?case by (subst Replace.simps) auto
qed

lemma spaceWidth_ascii: "asciiSpace c \<Longrightarrow> spaceWidth (c # cs) = 1"
  by (simp add: spaceWidth_def)

lemma hasSpace_ascii: "c \<in> set s \<Longrightarrow> asciiSpace c \<Longrightarrow> hasSpace s"
  by (induction s) (auto simp add: spaceWidth_ascii)

lemma space_not_in_unicodeSpaces: "w \<in> set unicodeSpaces \<Longrightarrow> CHR 0x20 \<notin> set w"
  by (auto simp add: unicodeSpaces_def)

lemma spaceWidth_before_space:
  assumes "spaceWidth (c # cs) = 0"
  shows "spaceWidth (c # cs @ CHR 0x20 # rest) = 0"
proof -
  from assms have c: "\<not> asciiSpace c"
    by (auto simp add: spaceWidth_def split: if_splits)
  with assms have "find (HasPrefix (c # cs)) unicodeSpaces = None"
    by (auto simp add: spaceWidth_def unicodeSpaces_def split: option.splits if_splits)
  then have "\<forall>w \<in> set unicodeSpaces. \<not> HasPrefix (c # cs) w"
    by (simp add: find_None_iff)
  then have "\<forall>w \<in> set unicodeSpaces. \<not> HasPrefix (c # cs @ CHR 0x20 # rest) w"
    using HasPrefix_cut [of "c # cs" "CHR 0x20" rest] space_not_in_unicodeSpaces by auto
  then have "find (HasPrefix (c # cs @ CHR 0x20 # rest)) unicodeSpaces = None"
    by (simp add: find_None_iff)
  with c show ?thesis
    by (simp add: spaceWidth_def)
qed

lemma fieldsFrom_field:
  "\<not> hasSpace p \<Longrightarrow> cur @ p \<noteq> [] \<Longrightarrow>
   fieldsFrom cur (p @ CHR 0x20 # rest) = (cur @ p) # fieldsFrom [] rest"
proof (induction p arbitrary: cur)
  case Nil
  have "spaceWidth (CHR 0x20 # rest) = 1"
    by (simp add: spaceWidth_ascii asciiSpace_def)
  with Nil show ?case
    by (subst fieldsFrom.simps) simp
next
  case (Cons c p)
  then have "spaceWidth (c # p) = 0" "\<not> hasSpace p"
    by simp_all
  then have "spaceWidth (c # p @ CHR 0x20 # rest) = 0"
    by (simp add: spaceWidth_before_space)
  then have "fieldsFrom cur ((c # p) @ CHR 0x20 # rest)
      = fieldsFrom (cur @ [c]) (p @ CHR 0x20 # rest)"
    by (subst fieldsFrom.simps) simp
  with Cons.IH [of "cur @ [c]"] \<open>\<not> hasSpace p\<close> show ?case
    by simp
qed

lemma Fields_field:
  "\<not> hasSpace p \<Longrightarrow> p \<noteq> [] \<Longrightarrow> Fields (p @ CHR 0x20 # rest) = p # Fields rest"
  using fieldsFrom_field [of p "[]" rest] by (simp add: Fields_def)

lemma scanLines_line:
  assumes "CHR 0x0A \<notin> set line" and "int (length line) < MaxScanTokenSize"
  shows "scanLines (line @ CHR 0x0A # rest) = dropCR line # scanLines rest"
proof -
  have "takeWhile (\<lambda>c. c \<noteq> CHR 0x0A) (line @ CHR 0x0A # rest) = line"
    using assms(1) by (auto simp add: takeWhile_tail)
  with assms(2) show ?thesis
    by (subst scanLines.simps) (simp add: Let_def)
qed

lemma scanLines_Nil: "scanLines [] = []"
  by (subst scanLines.simps) simp

subsection \<open>The line of a pattern, written and read back\<close>

lemma Replace_nonempty: "s \<noteq> [] \<Longrightarrow> new \<noteq> [] \<Longrightarrow> Replace s [x] new \<noteq> []"
  by (subst Replace.simps) simp

lemma no_space_chars: "\<not> hasSpace p \<Longrightarrow> c \<in> set p \<Longrightarrow> \<not> asciiSpace c"
  using hasSpace_ascii by blast

lemma Clean_nonempty: "Clean path \<noteq> []"
  by (simp add: Clean_def Let_def)

lemma Dir_nonempty: "Dir path \<noteq> []"
  by (simp add: Dir_def Clean_nonempty)

text \<open>
  The generated line without its line feed, for a pattern whose escaped text holds no
  white space.
\<close>

lemma escaped_line_facts:
  assumes "encoded = Replace pattern '' '' ''[[:space:]]''"
    and "pattern \<noteq> []" and "\<not> hasSpace encoded"
    and "lockable \<or> \<not> Contains encoded lockableAttrib"
  defines "line \<equiv> butlast (changedAttribLine lockable pattern)"
  shows "line @ [CHR 0x0A] = changedAttribLine lockable pattern"
    and "CHR 0x0A \<notin> set line"
    and "dropCR line = line"
    and "Contains line ''filter=lfs''"
    and "Fields line \<noteq> []"
    and "firstField line = encoded"
    and "Contains line lockableAttrib = lockable"
proof -
  have nl: "CHR 0x0A \<notin> set encoded"
    using no_space_chars [OF assms(3)] by (auto simp add: asciiSpace_def)
  have nonempty: "encoded \<noteq> []"
    unfolding assms(1) using assms(2) by (intro Replace_nonempty) simp_all
  have whole: "changedAttribLine lockable pattern
      = encoded @ CHR 0x20 # ''filter=lfs diff=lfs merge=lfs -text''
        @ (if lockable then '' lockable'' else []) @ [CHR 0x0A]"
    by (simp add: changedAttribLine_def lockableAttrib_def assms(1))
  have line: "line = encoded @ CHR 0x20 # ''filter=lfs diff=lfs merge=lfs -text''
                 @ (if lockable then '' lockable'' else [])"
    by (simp add: line_def whole butlast_append)
  show "line @ [CHR 0x0A] = changedAttribLine lockable pattern"
    by (simp add: line whole)
  show "CHR 0x0A \<notin> set line"
    using nl by (simp add: line)
  show "dropCR line = line"
    by (simp add: line dropCR_def)
  show "Contains line ''filter=lfs''"
    unfolding line by (rule Contains_append) simp
  have fields: "Fields line = encoded # Fields (''filter=lfs diff=lfs merge=lfs -text''
                 @ (if lockable then '' lockable'' else []))"
    unfolding line by (rule Fields_field [OF assms(3) nonempty])
  then show "Fields line \<noteq> []"
    by simp
  from fields show "firstField line = encoded"
    by (simp add: firstField_def)
  show "Contains line lockableAttrib = lockable"
  proof (cases lockable)
    case True
    have "Contains (encoded @ '' filter=lfs diff=lfs merge=lfs -text lockable'') ''lockable''"
      by (rule Contains_append) simp
    with True show ?thesis
      by (simp add: line lockableAttrib_def)
  next
    case False
    with assms(4) have "\<not> Contains encoded ''lockable''"
      by (simp add: lockableAttrib_def)
    moreover have "Contains (encoded @ CHR 0x20 # ''filter=lfs diff=lfs merge=lfs -text'') ''lockable''
        = (Contains encoded ''lockable'' \<or> Contains ''filter=lfs diff=lfs merge=lfs -text'' ''lockable'')"
      by (rule Contains_across) simp_all
    ultimately show ?thesis
      using False by (simp add: line lockableAttrib_def)
  qed
qed

text \<open>The same for a pattern that holds no white space: nothing in it is escaped.\<close>

lemma rendered_line_facts:
  assumes "pattern \<noteq> []" and "\<not> hasSpace pattern"
    and "lockable \<or> \<not> Contains pattern lockableAttrib"
  defines "line \<equiv> butlast (changedAttribLine lockable pattern)"
  shows "line @ [CHR 0x0A] = changedAttribLine lockable pattern"
    and "CHR 0x0A \<notin> set line"
    and "dropCR line = line"
    and "Contains line ''filter=lfs''"
    and "Fields line \<noteq> []"
    and "firstField line = pattern"
    and "Contains line lockableAttrib = lockable"
proof -
  have "CHR 0x20 \<notin> set pattern"
    using no_space_chars [OF assms(2)] by (auto simp add: asciiSpace_def)
  then have "pattern = Replace pattern '' '' ''[[:space:]]''"
    by (simp add: Replace_absent)
  note facts = escaped_line_facts [OF this assms(1-3)]
  show "line @ [CHR 0x0A] = changedAttribLine lockable pattern"
    and "CHR 0x0A \<notin> set line"
    and "dropCR line = line"
    and "Contains line ''filter=lfs''"
    and "Fields line \<noteq> []"
    and "firstField line = pattern"
    and "Contains line lockableAttrib = lockable"
    unfolding line_def by (rule facts)+
qed

text \<open>
  Claim C4, as amended. The line generated for a pattern holds the pattern with each
  space replaced by \<open>[[:space:]]\<close>, and nothing decodes that text when the line is read.
  For a pattern that is not empty, whose escaped text holds no white space (the pattern
  has none but spaces) and whose line fits the scanner's buffer, and for either value
  of the lockable flag, where the escaped text does not contain \<open>lockable\<close> when the flag
  is off: the scanner delivers the generated line as one line, \<open>findPaths\<close> recognises
  it, its first field is the escaped text, and the lockable attribute read from it is
  the flag. The first field is the pattern itself exactly when the pattern holds no
  space.
\<close>

theorem render_parse_round_trip:
  assumes "pattern \<noteq> []"
    and "\<not> hasSpace (Replace pattern '' '' ''[[:space:]]'')"
    and "lockable \<or> \<not> Contains (Replace pattern '' '' ''[[:space:]]'') lockableAttrib"
    and "int (length (changedAttribLine lockable pattern)) \<le> MaxScanTokenSize"
  shows "scanLines (changedAttribLine lockable pattern)
           = [butlast (changedAttribLine lockable pattern)]
         \<and> Contains (butlast (changedAttribLine lockable pattern)) ''filter=lfs''
         \<and> firstField (butlast (changedAttribLine lockable pattern))
             = Replace pattern '' '' ''[[:space:]]''
         \<and> Contains (butlast (changedAttribLine lockable pattern)) lockableAttrib = lockable
         \<and> concat (map (lineEntry e path) (scanLines (changedAttribLine lockable pattern)))
             = [\<lparr>Path = Join [Dir (fst (Rel (config_LocalWorkingDir e) path)),
                              Replace pattern '' '' ''[[:space:]]''],
                 Source = fst (Rel (config_LocalWorkingDir e) path),
                 Lockable = lockable\<rparr>]
         \<and> (Replace pattern '' '' ''[[:space:]]'' = pattern \<longleftrightarrow> CHR 0x20 \<notin> set pattern)"
proof -
  let ?line = "butlast (changedAttribLine lockable pattern)"
  let ?encoded = "Replace pattern '' '' ''[[:space:]]''"
  note facts = escaped_line_facts [OF refl assms(1-3)]
  have "length (changedAttribLine lockable pattern) = Suc (length ?line)"
    by (metis facts(1) length_append_singleton)
  with assms(4) have "int (length ?line) < MaxScanTokenSize"
    by linarith
  then have "scanLines (?line @ CHR 0x0A # []) = dropCR ?line # scanLines []"
    using facts(2) by (intro scanLines_line)
  then have scan: "scanLines (changedAttribLine lockable pattern) = [?line]"
    by (simp add: facts(1,3) scanLines_Nil)
  obtain rest where "Fields ?line = ?encoded # rest"
    using facts(5,6) by (cases "Fields ?line") (simp_all add: firstField_def)
  then have entry: "lineEntry e path ?line
      = [\<lparr>Path = Join [Dir (fst (Rel (config_LocalWorkingDir e) path)), ?encoded],
          Source = fst (Rel (config_LocalWorkingDir e) path),
          Lockable = lockable\<rparr>]"
    using facts(4,7) by (simp add: lineEntry_def Let_def Dir_nonempty)
  have "CHR 0x20 \<notin> set ?encoded"
    using no_space_chars [OF assms(2)] by (auto simp add: asciiSpace_def)
  then have "?encoded = pattern \<longleftrightarrow> CHR 0x20 \<notin> set pattern"
    by (auto simp add: Replace_absent)
  with scan entry facts(4,6,7) show ?thesis
    by simp
qed

theorem render_parse_round_trip_witness:
  "concat (map (lineEntry emptyRepo ''/repo/.gitattributes'')
             (scanLines (changedAttribLine True ''my docs/*.psd'')))
     = [\<lparr>Path = ''my[[:space:]]docs/*.psd'', Source = ''.gitattributes'', Lockable = True\<rparr>]
   \<and> firstField (butlast (changedAttribLine True ''my docs/*.psd'')) = ''my[[:space:]]docs/*.psd''
   \<and> firstField (butlast (changedAttribLine False ''*.txt'')) = ''*.txt''"
proof -
  have encoded: "Replace ''my docs/*.psd'' '' '' ''[[:space:]]'' = ''my[[:space:]]docs/*.psd''"
    by code_simp
  have "''my docs/*.psd'' \<noteq> []"
    and "\<not> hasSpace (Replace ''my docs/*.psd'' '' '' ''[[:space:]]'')"
    and "True \<or> \<not> Contains (Replace ''my docs/*.psd'' '' '' ''[[:space:]]'') lockableAttrib"
    and "int (length (changedAttribLine True ''my docs/*.psd'')) \<le> MaxScanTokenSize"
    by code_simp+
  note psd = render_parse_round_trip [OF this, of emptyRepo "''/repo/.gitattributes''",
      unfolded encoded]
  from psd have entries: "concat (map (lineEntry emptyRepo ''/repo/.gitattributes'')
                      (scanLines (changedAttribLine True ''my docs/*.psd'')))
     = [\<lparr>Path = Join [Dir (fst (Rel (config_LocalWorkingDir emptyRepo) ''/repo/.gitattributes'')),
                      ''my[[:space:]]docs/*.psd''],
          Source = fst (Rel (config_LocalWorkingDir emptyRepo) ''/repo/.gitattributes''),
          Lockable = True\<rparr>]"
    by blast
  from psd have first: "firstField (butlast (changedAttribLine True ''my docs/*.psd''))
      = ''my[[:space:]]docs/*.psd''"
    by blast
  have "''*.txt'' \<noteq> []"
    and "\<not> hasSpace (Replace ''*.txt'' '' '' ''[[:space:]]'')"
    and "False \<or> \<not> Contains (Replace ''*.txt'' '' '' ''[[:space:]]'') lockableAttrib"
    and "int (length (changedAttribLine False ''*.txt'')) \<le> MaxScanTokenSize"
    by code_simp+
  from render_parse_round_trip [OF this, of emptyRepo "''/repo/.gitattributes''"]
  have plain: "firstField (butlast (changedAttribLine False ''*.txt'')) = ''*.txt''"
    by simp
  have "fst (Rel (config_LocalWorkingDir emptyRepo) ''/repo/.gitattributes'') = ''.gitattributes''"
    by code_simp
  moreover have "Join [Dir ''.gitattributes'', ''my[[:space:]]docs/*.psd''] = ''my[[:space:]]docs/*.psd''"
    by code_simp
  ultimately show ?thesis
    using entries first plain by simp
qed

theorem round_trip_space_counterexample:
  "changedAttribLine False ''a b'' = ''a[[:space:]]b filter=lfs diff=lfs merge=lfs -text'' @ [CHR 0x0A]
   \<and> concat (map (lineEntry emptyRepo ''/repo/.gitattributes'') (scanLines (changedAttribLine False ''a b'')))
     = [\<lparr>Path = ''a[[:space:]]b'', Source = ''.gitattributes'', Lockable = False\<rparr>]"
  by code_simp

text \<open>
  Why the other conditions are there: a tab is not escaped and ends the first field;
  the line of the empty pattern starts with a space, so that its first field is
  \<open>filter=lfs\<close>; and the lockable attribute is looked for in the whole line, the pattern
  included.
\<close>

lemma round_trip_conditions:
  "firstField (butlast (changedAttribLine False (''a'' @ [CHR 0x09] @ ''b''))) = ''a''
   \<and> firstField (butlast (changedAttribLine False [])) = ''filter=lfs''
   \<and> Contains (butlast (changedAttribLine False ''lockable.txt'')) lockableAttrib"
  by code_simp

subsection \<open>Running the command twice\<close>

lemma dropCR_subset: "set (dropCR line) \<subseteq> set line"
  by (auto simp add: dropCR_def dest: in_set_butlastD)

lemma dropCR_length: "length (dropCR line) \<le> length line"
  by (simp add: dropCR_def)

lemma scanLines_lines:
  "line \<in> set (scanLines data) \<Longrightarrow> CHR 0x0A \<notin> set line \<and> int (length line) < MaxScanTokenSize"
proof (induction data rule: scanLines.induct)
  case (1 data)
  let ?first = "takeWhile (\<lambda>c. c \<noteq> CHR 0x0A) data"
  have unfolded: "scanLines data
      = (if data = [] \<or> MaxScanTokenSize \<le> int (length ?first) then []
         else dropCR ?first # scanLines (drop (Suc (length ?first)) data))"
    by (subst scanLines.simps) (simp add: Let_def)
  show ?case
  proof (cases "data = [] \<or> MaxScanTokenSize \<le> int (length ?first)")
    case True
    with "1.prems" show ?thesis
      by (simp add: unfolded)
  next
    case False
    with "1.prems" have "line = dropCR ?first \<or> line \<in> set (scanLines (drop (Suc (length ?first)) data))"
      by (simp add: unfolded)
    then show ?thesis
    proof
      assume line: "line = dropCR ?first"
      have "CHR 0x0A \<notin> set ?first"
        by (auto dest: set_takeWhileD)
      with dropCR_subset [of ?first] dropCR_length [of ?first] False line show ?thesis
        by auto
    next
      assume "line \<in> set (scanLines (drop (Suc (length ?first)) data))"
      with "1.IH" [OF _ refl] False show ?thesis
        by auto
    qed
  qed
qed

lemma scanLines_concat:
  "\<forall>line \<in> set lines. CHR 0x0A \<notin> set line \<and> int (length line) < MaxScanTokenSize \<and> dropCR line = line
   \<Longrightarrow> scanLines (concat (map (\<lambda>line. line @ [CHR 0x0A]) lines)) = lines"
  by (induction lines) (simp_all add: scanLines_Nil scanLines_line)

lemma mergeLoop_empty_map:
  "\<forall>line \<in> set lines. Fields line \<noteq> [] \<Longrightarrow>
   mergeLoop lines [] bytes = (False, bytes @ concat (map (\<lambda>line. line @ [CHR 0x0A]) lines), [])"
  by (induction lines arbitrary: bytes) (auto split: list.splits)

lemma mergeLoop_chunks:
  "mergeLoop lines m bytes = (False, bytes', m') \<Longrightarrow> distinct (map fst m) \<Longrightarrow>
   \<exists>chunks. bytes' = bytes @ concat chunks
     \<and> set chunks \<subseteq> (\<lambda>line. line @ [CHR 0x0A]) ` set lines \<union> snd ` set m
     \<and> snd ` set m \<subseteq> set chunks \<union> snd ` set m'
     \<and> set m' \<subseteq> set m
     \<and> (\<forall>line \<in> set lines. Fields line \<noteq> [])
     \<and> (\<forall>line \<in> set lines. line @ [CHR 0x0A] \<in> set chunks
            \<or> (\<exists>newline. (firstField line, newline) \<in> set m \<and> newline \<in> set chunks))"
proof (induction lines arbitrary: m bytes)
  case Nil
  then show ?case
    by (intro exI [of _ "[]"]) auto
next
  case (Cons line lines)
  from Cons.prems(1) obtain pattern rest where fields: "Fields line = pattern # rest"
    by (cases "Fields line") auto
  show ?case
  proof (cases "map_of m pattern")
    case None
    with Cons.prems(1) fields
    have "mergeLoop lines m (bytes @ line @ [CHR 0x0A]) = (False, bytes', m')"
      by simp
    from Cons.IH [OF this Cons.prems(2)] obtain chunks where
      "bytes' = (bytes @ line @ [CHR 0x0A]) @ concat chunks"
      "set chunks \<subseteq> (\<lambda>line. line @ [CHR 0x0A]) ` set lines \<union> snd ` set m"
      "snd ` set m \<subseteq> set chunks \<union> snd ` set m'" "set m' \<subseteq> set m"
      "\<forall>line \<in> set lines. Fields line \<noteq> []"
      "\<forall>line \<in> set lines. line @ [CHR 0x0A] \<in> set chunks
         \<or> (\<exists>newline. (firstField line, newline) \<in> set m \<and> newline \<in> set chunks)"
      by blast
    then show ?thesis
      using fields by (intro exI [of _ "(line @ [CHR 0x0A]) # chunks"]) (simp, blast)
  next
    case (Some newline)
    with Cons.prems(1) fields
    have "mergeLoop lines (AList.delete pattern m) (bytes @ newline) = (False, bytes', m')"
      by simp
    from Cons.IH [OF this] Cons.prems(2) obtain chunks where chunks:
      "bytes' = (bytes @ newline) @ concat chunks"
      "set chunks \<subseteq> (\<lambda>line. line @ [CHR 0x0A]) ` set lines \<union> snd ` set (AList.delete pattern m)"
      "snd ` set (AList.delete pattern m) \<subseteq> set chunks \<union> snd ` set m'"
      "set m' \<subseteq> set (AList.delete pattern m)"
      "\<forall>line \<in> set lines. Fields line \<noteq> []"
      "\<forall>line \<in> set lines. line @ [CHR 0x0A] \<in> set chunks
         \<or> (\<exists>newline. (firstField line, newline) \<in> set (AList.delete pattern m)
               \<and> newline \<in> set chunks)"
      by (auto simp add: distinct_delete)
    have del: "set (AList.delete pattern m) = {entry \<in> set m. fst entry \<noteq> pattern}"
      by (induction m) auto
    from Some have here: "(pattern, newline) \<in> set m"
      by (rule map_of_SomeD)
    have only: "v = newline" if "(pattern, v) \<in> set m" for v
      using that Some Cons.prems(2) by simp
    have covered: "snd ` set m \<subseteq> set (newline # chunks) \<union> snd ` set m'"
    proof
      fix v assume "v \<in> snd ` set m"
      then obtain k where kv: "(k, v) \<in> set m"
        by auto
      show "v \<in> set (newline # chunks) \<union> snd ` set m'"
      proof (cases "k = pattern")
        case True
        with kv only show ?thesis by simp
      next
        case False
        with kv have "(k, v) \<in> set (AList.delete pattern m)"
          by (simp add: del)
        then have "v \<in> snd ` set (AList.delete pattern m)"
          by force
        with chunks(3) show ?thesis by auto
      qed
    qed
    have "bytes' = bytes @ concat (newline # chunks)"
      using chunks(1) by simp
    moreover have "set (newline # chunks)
        \<subseteq> (\<lambda>line. line @ [CHR 0x0A]) ` set (line # lines) \<union> snd ` set m"
    proof
      fix x assume "x \<in> set (newline # chunks)"
      then consider "x = newline" | "x \<in> set chunks"
        by auto
      then show "x \<in> (\<lambda>line. line @ [CHR 0x0A]) ` set (line # lines) \<union> snd ` set m"
      proof cases
        case 1
        with here show ?thesis by force
      next
        case 2
        with chunks(2) have "x \<in> (\<lambda>line. line @ [CHR 0x0A]) ` set lines
            \<or> x \<in> snd ` set (AList.delete pattern m)"
          by blast
        then show ?thesis
          by (auto simp add: del)
      qed
    qed
    moreover have "set m' \<subseteq> set m"
      using chunks(4) del by blast
    moreover have "\<forall>line \<in> set (line # lines). Fields line \<noteq> []"
      using chunks(5) fields by simp
    moreover have "\<forall>l \<in> set (line # lines). l @ [CHR 0x0A] \<in> set (newline # chunks)
        \<or> (\<exists>v. (firstField l, v) \<in> set m \<and> v \<in> set (newline # chunks))"
    proof
      fix l assume "l \<in> set (line # lines)"
      then consider "l = line" | "l \<in> set lines"
        by auto
      then show "l @ [CHR 0x0A] \<in> set (newline # chunks)
          \<or> (\<exists>v. (firstField l, v) \<in> set m \<and> v \<in> set (newline # chunks))"
      proof cases
        case 1
        with here fields show ?thesis
          by (auto simp add: firstField_def)
      next
        case 2
        with chunks(6) have "l @ [CHR 0x0A] \<in> set chunks
            \<or> (\<exists>v. (firstField l, v) \<in> set (AList.delete pattern m) \<and> v \<in> set chunks)"
          by blast
        then show ?thesis
          by (auto simp add: del)
      qed
    qed
    ultimately show ?thesis
      using covered by blast
  qed
qed

lemma update_entries:
  "entry \<in> set (AList.update k v m) \<Longrightarrow> entry = (k, v) \<or> entry \<in> set m"
  by (induction m) (auto split: if_splits)

lemma update_keeps: "entry \<in> set m \<Longrightarrow> fst entry \<noteq> k \<or> entry = (k, v) \<Longrightarrow> entry \<in> set (AList.update k v m)"
  by (induction m) auto

lemma update_has: "(k, v) \<in> set (AList.update k v m)"
  by (induction m) auto

lemma argsLoop_distinct:
  "distinct (map fst m) \<Longrightarrow> distinct (map fst (snd (argsLoop e knownPaths relpath args (out, m))))"
  by (induction args arbitrary: out m) (simp_all add: Let_def distinct_update)

lemma argsLoop_entries:
  "entry \<in> set (snd (argsLoop e knownPaths relpath args (out, m))) \<Longrightarrow>
   entry \<in> set m
   \<or> (\<exists>arg \<in> set args. entry = (cleanRootPath e arg,
          changedAttribLine (trackLockableFlag e) (cleanRootPath e arg)))"
proof (induction args arbitrary: out m)
  case Nil
  then show ?case by simp
next
  case (Cons arg args)
  show ?case
  proof (cases "alreadySupported e knownPaths relpath (cleanRootPath e arg)")
    case True
    with Cons.prems Cons.IH [of "out @ [AlreadySupported (cleanRootPath e arg)]" m] show ?thesis
      by (auto simp add: Let_def)
  next
    case False
    let ?m = "AList.update (cleanRootPath e arg)
                (changedAttribLine (trackLockableFlag e) (cleanRootPath e arg)) m"
    from False Cons.prems
    have "entry \<in> set (snd (argsLoop e knownPaths relpath args
            (out @ [Tracking (cleanRootPath e arg)], ?m)))"
      by (simp add: Let_def)
    from Cons.IH [OF this] update_entries [of entry _ _ m] show ?thesis
      by auto
  qed
qed

lemma argsLoop_keeps:
  "(k, changedAttribLine (trackLockableFlag e) k) \<in> set m \<Longrightarrow>
   (k, changedAttribLine (trackLockableFlag e) k)
     \<in> set (snd (argsLoop e knownPaths relpath args (out, m)))"
proof (induction args arbitrary: out m)
  case Nil
  then show ?case by simp
next
  case (Cons arg args)
  let ?p = "cleanRootPath e arg"
  have "(k, changedAttribLine (trackLockableFlag e) k)
      \<in> set (AList.update ?p (changedAttribLine (trackLockableFlag e) ?p) m)"
    using Cons.prems by (intro update_keeps) auto
  with Cons show ?case
    by (simp add: Let_def)
qed

lemma argsLoop_tracked:
  "arg \<in> set args \<Longrightarrow> \<not> alreadySupported e knownPaths relpath (cleanRootPath e arg) \<Longrightarrow>
   (cleanRootPath e arg, changedAttribLine (trackLockableFlag e) (cleanRootPath e arg))
     \<in> set (snd (argsLoop e knownPaths relpath args (out, m)))"
proof (induction args arbitrary: out m)
  case Nil
  then show ?case by simp
next
  case (Cons a args)
  show ?case
  proof (cases "a = arg")
    case True
    with Cons.prems(2) show ?thesis
      by (simp add: Let_def argsLoop_keeps update_has)
  next
    case False
    with Cons show ?thesis
      by (simp add: Let_def)
  qed
qed

lemma argsLoop_all_supported:
  "\<forall>arg \<in> set args. alreadySupported e knownPaths relpath (cleanRootPath e arg) \<Longrightarrow>
   argsLoop e knownPaths relpath args (out, m)
     = (out @ map (\<lambda>arg. AlreadySupported (cleanRootPath e arg)) args, m)"
  by (induction args arbitrary: out) (simp_all add: Let_def)

lemma rangeLoop_Returns:
  "ending (rangeLoop e entries st) = Returns \<Longrightarrow>
   written (rangeLoop e entries st) = map_option (\<lambda>file. file @ concat (map snd entries)) (written st)"
proof (induction entries arbitrary: st)
  case Nil
  then show ?case
    by (simp add: option.map_ident)
next
  case (Cons entry entries)
  obtain pattern newline where entry: "entry = (pattern, newline)"
    by (cases entry)
  from Cons.prems have x: "ending (trackPattern e entry st) = Returns"
    by (auto simp add: Let_def split: if_splits)
  with Cons.prems have "ending (rangeLoop e entries (trackPattern e entry st)) = Returns"
    by (simp add: Let_def)
  from Cons.IH [OF this] x show ?case
    by (simp add: Let_def entry trackPattern_written option.map_comp comp_def)
qed

lemma findPaths_member:
  "path \<in> set (findAttributeFiles e) \<Longrightarrow> os_Open e path = Some attributes \<Longrightarrow>
   line \<in> set (scanLines attributes) \<Longrightarrow> known \<in> set (lineEntry e path line) \<Longrightarrow>
   known \<in> set (findPaths e)"
  by (force simp add: findPaths_def)

lemma trackCommand_unfold:
  assumes "config_LocalGitDir e \<noteq> []" and "config_LocalWorkingDir e \<noteq> []" and "args \<noteq> []"
    and "\<not> snd (Rel (config_LocalWorkingDir e) (os_Getwd e))"
    and "ioutil_ReadFile e \<noteq> ReadError" and "os_OpenFile e"
    and "argsLoop e (findPaths e) (fst (Rel (config_LocalWorkingDir e) (os_Getwd e))) args ([], [])
           = (out, m)"
    and "mergeLoop (case ioutil_ReadFile e of ReadOk old \<Rightarrow> scanLines old | _ \<Rightarrow> []) m []
           = (panic, merged, m')"
  shows "trackCommand e args
           = (if panic then \<lparr>printed = out, written = Some merged, touched = [], ending = Panics\<rparr>
              else rangeLoop e (rangeMap (rangeOrder e) m')
                     \<lparr>printed = out, written = Some merged, touched = [], ending = Returns\<rparr>)"
proof -
  obtain relpath err where rel: "Rel (config_LocalWorkingDir e) (os_Getwd e) = (relpath, err)"
    by (cases "Rel (config_LocalWorkingDir e) (os_Getwd e)")
  with assms(4) have err: "\<not> err"
    by simp
  from assms(7) rel have loop: "argsLoop e (findPaths e) relpath args ([], []) = (out, m)"
    by simp
  show ?thesis
  proof (cases "ioutil_ReadFile e")
    case (ReadOk old)
    have "(if 0 < length old then mergeLoop (scanLines old) m [] else (False, [], m))
        = (panic, merged, m')"
      using assms(8) ReadOk by (cases old) (simp_all add: scanLines_Nil)
    with assms(1-3,6) err show ?thesis
      by (simp add: trackCommand_def Let_def rel loop ReadOk)
  next
    case ReadNotExist
    with assms(1-3,6,8) err show ?thesis
      by (auto simp add: trackCommand_def Let_def rel loop)
  next
    case ReadError
    with assms(5) show ?thesis
      by simp
  qed
qed

lemma trackCommand_wrote:
  assumes "ending (trackCommand e args) = Returns"
    and "written (trackCommand e args) = Some attributes"
  shows "config_LocalGitDir e \<noteq> [] \<and> config_LocalWorkingDir e \<noteq> [] \<and> args \<noteq> []
         \<and> \<not> snd (Rel (config_LocalWorkingDir e) (os_Getwd e))
         \<and> ioutil_ReadFile e \<noteq> ReadError \<and> os_OpenFile e
         \<and> (\<exists>merged m'.
               mergeLoop (case ioutil_ReadFile e of ReadOk old \<Rightarrow> scanLines old | _ \<Rightarrow> [])
                 (snd (argsLoop e (findPaths e)
                         (fst (Rel (config_LocalWorkingDir e) (os_Getwd e))) args ([], []))) []
                 = (False, merged, m')
               \<and> attributes = merged @ concat (map snd (rangeMap (rangeOrder e) m')))"
proof -
  have 1: "config_LocalGitDir e \<noteq> []"
    using assms(2) by (auto simp add: trackCommand_def print_def)
  have 2: "config_LocalWorkingDir e \<noteq> []"
    using assms(2) 1 by (auto simp add: trackCommand_def print_def)
  have 3: "args \<noteq> []"
    using assms(2) 1 2 by (auto simp add: trackCommand_def Let_def)
  have 4: "\<not> snd (Rel (config_LocalWorkingDir e) (os_Getwd e))"
    using assms(2) 1 2 3 by (auto simp add: trackCommand_def Let_def print_def split: prod.splits)
  have 5: "ioutil_ReadFile e \<noteq> ReadError"
    using assms(2) 1 2 3 4
    by (auto simp add: trackCommand_def Let_def print_def split: prod.splits)
  have 6: "os_OpenFile e"
    using assms(2) 1 2 3 4 5
    by (cases "ioutil_ReadFile e")
       (auto simp add: trackCommand_def Let_def print_def split: prod.splits if_splits)
  obtain out m where args: "argsLoop e (findPaths e)
      (fst (Rel (config_LocalWorkingDir e) (os_Getwd e))) args ([], []) = (out, m)"
    by (cases "argsLoop e (findPaths e)
      (fst (Rel (config_LocalWorkingDir e) (os_Getwd e))) args ([], [])")
  obtain panic merged m' where merge:
    "mergeLoop (case ioutil_ReadFile e of ReadOk old \<Rightarrow> scanLines old | _ \<Rightarrow> []) m []
       = (panic, merged, m')"
    by (cases "mergeLoop (case ioutil_ReadFile e of ReadOk old \<Rightarrow> scanLines old | _ \<Rightarrow> []) m []")
  note unfolded = trackCommand_unfold [OF 1 2 3 4 5 6 args merge]
  from assms(1) unfolded have panic: "\<not> panic"
    by (auto split: if_splits)
  with unfolded have run: "trackCommand e args = rangeLoop e (rangeMap (rangeOrder e) m')
      \<lparr>printed = out, written = Some merged, touched = [], ending = Returns\<rparr>"
    by simp
  from rangeLoop_Returns [OF assms(1) [unfolded run]] assms(2)
  have "attributes = merged @ concat (map snd (rangeMap (rangeOrder e) m'))"
    by (simp add: run)
  with 1 2 3 4 5 6 args merge panic show ?thesis
    by simp
qed

lemma trackCommand_all_supported:
  assumes "config_LocalGitDir e \<noteq> []" and "config_LocalWorkingDir e \<noteq> []" and "args \<noteq> []"
    and "\<not> snd (Rel (config_LocalWorkingDir e) (os_Getwd e))"
    and "ioutil_ReadFile e = ReadOk attributes" and "os_OpenFile e"
    and "\<forall>arg \<in> set args. alreadySupported e (findPaths e)
           (fst (Rel (config_LocalWorkingDir e) (os_Getwd e))) (cleanRootPath e arg)"
    and "\<forall>line \<in> set (scanLines attributes). Fields line \<noteq> []"
    and "concat (map (\<lambda>line. line @ [CHR 0x0A]) (scanLines attributes)) = attributes"
  shows "trackCommand e args
           = \<lparr>printed = map (\<lambda>arg. AlreadySupported (cleanRootPath e arg)) args,
              written = Some attributes, touched = [], ending = Returns\<rparr>"
proof -
  have args: "argsLoop e (findPaths e) (fst (Rel (config_LocalWorkingDir e) (os_Getwd e))) args ([], [])
      = (map (\<lambda>arg. AlreadySupported (cleanRootPath e arg)) args, [])"
    using argsLoop_all_supported [OF assms(7), of "[]" "[]"] by simp
  have merge: "mergeLoop (case ioutil_ReadFile e of ReadOk old \<Rightarrow> scanLines old | _ \<Rightarrow> []) [] []
      = (False, attributes, [])"
    using mergeLoop_empty_map [OF assms(8), of "[]"] assms(5,9) by simp
  have "ioutil_ReadFile e \<noteq> ReadError"
    using assms(5) by simp
  from trackCommand_unfold [OF assms(1-4) this assms(6) args merge] show ?thesis
    by (subst (asm) rangeMap.simps) simp
qed

lemma lineEntry_rendered:
  assumes "pattern \<noteq> []" and "\<not> hasSpace pattern"
    and "lockable \<or> \<not> Contains pattern lockableAttrib"
  shows "lineEntry e path (butlast (changedAttribLine lockable pattern))
           = [\<lparr>Path = Join [Dir (fst (Rel (config_LocalWorkingDir e) path)), pattern],
               Source = fst (Rel (config_LocalWorkingDir e) path),
               Lockable = lockable\<rparr>]"
proof -
  let ?line = "butlast (changedAttribLine lockable pattern)"
  note facts = rendered_line_facts [OF assms]
  obtain rest where "Fields ?line = pattern # rest"
    using facts(5,6) by (cases "Fields ?line") (simp_all add: firstField_def)
  then show ?thesis
    using facts(4,7) by (simp add: lineEntry_def Let_def Dir_nonempty)
qed

lemma findPaths_source:
  "known \<in> set (findPaths e) \<Longrightarrow>
   \<exists>path attributes line. path \<in> set (findAttributeFiles e) \<and> os_Open e path = Some attributes
     \<and> line \<in> set (scanLines attributes) \<and> known \<in> set (lineEntry e path line)"
proof -
  assume "known \<in> set (findPaths e)"
  then obtain path where path: "path \<in> set (findAttributeFiles e)"
    "known \<in> set (case os_Open e path of
                    None \<Rightarrow> []
                  | Some attributes \<Rightarrow> concat (map (lineEntry e path) (scanLines attributes)))"
    by (auto simp add: findPaths_def)
  then obtain attributes where attributes: "os_Open e path = Some attributes"
    by (cases "os_Open e path") auto
  with path(2) obtain line where "line \<in> set (scanLines attributes)"
    "known \<in> set (lineEntry e path line)"
    by auto
  with path(1) attributes show ?thesis
    by blast
qed

lemma lineEntry_Path:
  assumes "known \<in> set (lineEntry e path line)"
  shows "Path known = Join [Dir (fst (Rel (config_LocalWorkingDir e) path)), firstField line]"
proof (cases "Contains line ''filter=lfs''")
  case False
  with assms show ?thesis
    by (simp add: lineEntry_def)
next
  case True
  show ?thesis
  proof (cases "Fields line")
    case Nil
    with assms True show ?thesis
      by (simp add: lineEntry_def)
  next
    case (Cons field0 rest)
    with assms True show ?thesis
      by (simp add: lineEntry_def Let_def firstField_def Dir_nonempty)
  qed
qed

text \<open>
  When the second run finds every pattern supported. Let a first run of the command
  return after writing the rule file, and let the second run be made with the same
  arguments, flags and current directory in the file system the first run left: the
  rule file \<open>path\<close> now holds the bytes the first run wrote, every other file is as it
  was, and the walk finds \<open>path\<close> and every rule file it found before. \<open>path\<close> is the
  file \<open>.gitattributes\<close> of the current directory: what opening it gave before the first
  run is what \<open>ReadFile\<close> gave, and its directory, relative to the work tree, is the
  current directory relative to the work tree. Let every pattern be non-empty and free
  of white space, not contain the text \<open>lockable\<close> when the lockable flag is off, and
  have a line that fits the scanner's buffer; and let no line of the old rule file end
  in a carriage return once the scanner has dropped one. Then the second run reports
  every pattern as already supported, puts nothing in the map, touches no file, and
  writes the rule file back with the same bytes.
\<close>

lemma second_run_supported:
  assumes "ending (trackCommand e args) = Returns"
    and "written (trackCommand e args) = Some attributes"
    and "e' = e\<lparr>ioutil_ReadFile := ReadOk attributes, tree := tree',
                 os_Open := (os_Open e)(path \<mapsto> attributes)\<rparr>"
    and "set (findAttributeFiles e) \<subseteq> set (findAttributeFiles e')"
    and "path \<in> set (findAttributeFiles e')"
    and "\<forall>old. os_Open e path = Some old \<longrightarrow> ioutil_ReadFile e = ReadOk old"
    and "Dir (fst (Rel (config_LocalWorkingDir e) path))
           = fst (Rel (config_LocalWorkingDir e) (os_Getwd e))"
    and "\<forall>arg \<in> set args.
           cleanRootPath e arg \<noteq> [] \<and> \<not> hasSpace (cleanRootPath e arg)
           \<and> (trackLockableFlag e \<or> \<not> Contains (cleanRootPath e arg) lockableAttrib)
           \<and> int (length (changedAttribLine (trackLockableFlag e) (cleanRootPath e arg)))
               \<le> MaxScanTokenSize"
    and "\<forall>line \<in> set (case ioutil_ReadFile e of ReadOk old \<Rightarrow> scanLines old | _ \<Rightarrow> []).
           dropCR line = line"
  shows "trackCommand e' args
           = \<lparr>printed = map (\<lambda>arg. AlreadySupported (cleanRootPath e arg)) args,
              written = Some attributes, touched = [], ending = Returns\<rparr>
         \<and> snd (argsLoop e' (findPaths e')
                  (fst (Rel (config_LocalWorkingDir e) (os_Getwd e))) args ([], [])) = []"
proof -
  let ?relpath = "fst (Rel (config_LocalWorkingDir e) (os_Getwd e))"
  let ?reldir = "Dir (fst (Rel (config_LocalWorkingDir e) path))"
  let ?flag = "trackLockableFlag e"
  let ?old = "case ioutil_ReadFile e of ReadOk old \<Rightarrow> scanLines old | _ \<Rightarrow> []"
  let ?m = "snd (argsLoop e (findPaths e) ?relpath args ([], []))"
  let ?nl = "\<lambda>line. line @ [CHR 0x0A]"
  let ?good = "\<lambda>line. CHR 0x0A \<notin> set line \<and> int (length line) < MaxScanTokenSize
                 \<and> dropCR line = line \<and> Fields line \<noteq> []"
  from trackCommand_wrote [OF assms(1,2)] obtain merged m' where
    dirs: "config_LocalGitDir e \<noteq> []" "config_LocalWorkingDir e \<noteq> []" and
    args: "args \<noteq> []" and
    rel: "\<not> snd (Rel (config_LocalWorkingDir e) (os_Getwd e))" and
    opened: "os_OpenFile e" and
    merge: "mergeLoop ?old ?m [] = (False, merged, m')" and
    attributes: "attributes = merged @ concat (map snd (rangeMap (rangeOrder e) m'))"
    by blast
  have "distinct (map fst ?m)"
    by (rule argsLoop_distinct) simp
  from mergeLoop_chunks [OF merge this] obtain chunks where
    merged: "merged = concat chunks" and
    chunks: "set chunks \<subseteq> ?nl ` set ?old \<union> snd ` set ?m" and
    covered: "snd ` set ?m \<subseteq> set chunks \<union> snd ` set m'" and
    left: "set m' \<subseteq> set ?m" and
    fields: "\<forall>line \<in> set ?old. Fields line \<noteq> []" and
    scanned_old: "\<forall>line \<in> set ?old. ?nl line \<in> set chunks
       \<or> (\<exists>newline. (firstField line, newline) \<in> set ?m \<and> newline \<in> set chunks)"
    by auto
  let ?all = "chunks @ map snd (rangeMap (rangeOrder e) m')"
  have appended: "set (map snd (rangeMap (rangeOrder e) m')) = snd ` set m'"
    using mset_rangeMap [of "rangeOrder e" m'] by (metis set_map set_mset_mset)
  have all: "attributes = concat ?all"
    by (simp add: attributes merged)
  have entry: "\<exists>arg \<in> set args. k = cleanRootPath e arg
      \<and> c = changedAttribLine ?flag (cleanRootPath e arg)"
    if "(k, c) \<in> set ?m" for k c
    using argsLoop_entries [OF that] by auto
  have old_good: "?good line" if "line \<in> set ?old" for line
  proof (cases "ioutil_ReadFile e")
    case (ReadOk old)
    with that have line: "line \<in> set (scanLines old)"
      by simp
    from assms(9) that have "dropCR line = line"
      by blast
    with scanLines_lines [OF line] fields that show ?thesis
      by blast
  qed (use that in simp_all)
  have good: "\<exists>line. c = ?nl line \<and> ?good line" if "c \<in> set ?all" for c
  proof -
    from that chunks left appended
    have "c \<in> ?nl ` set ?old \<or> c \<in> snd ` set ?m"
      by auto
    then show ?thesis
    proof
      assume "c \<in> ?nl ` set ?old"
      with old_good show ?thesis
        by blast
    next
      assume "c \<in> snd ` set ?m"
      then obtain k where "(k, c) \<in> set ?m"
        by auto
      from entry [OF this] obtain arg where
        arg: "arg \<in> set args" "c = changedAttribLine ?flag (cleanRootPath e arg)"
        by blast
      with assms(8) have p: "cleanRootPath e arg \<noteq> []" "\<not> hasSpace (cleanRootPath e arg)"
        "?flag \<or> \<not> Contains (cleanRootPath e arg) lockableAttrib"
        "int (length c) \<le> MaxScanTokenSize"
        by auto
      note facts = rendered_line_facts [OF p(1-3)]
      have "length c = Suc (length (butlast c))"
        unfolding arg(2) by (metis facts(1) length_append_singleton)
      with p(4) have "int (length (butlast c)) < MaxScanTokenSize"
        by linarith
      with facts(1,2,3,5) arg(2) show ?thesis
        by (intro exI [of _ "butlast c"]) simp
    qed
  qed
  let ?lines = "map butlast ?all"
  have "map (?nl \<circ> butlast) ?all = ?all"
  proof (rule map_idI)
    fix c assume "c \<in> set ?all"
    from good [OF this] show "(?nl \<circ> butlast) c = c"
      by auto
  qed
  then have restored: "map ?nl ?lines = ?all"
    by (simp only: map_map)
  have lines_good: "?good line" if "line \<in> set ?lines" for line
  proof -
    from that obtain c where "c \<in> set ?all" "line = butlast c"
      by auto
    with good [of c] show ?thesis
      by auto
  qed
  have concat_lines: "concat (map ?nl ?lines) = attributes"
    by (simp only: restored all)
  have scanned: "scanLines attributes = ?lines"
    using scanLines_concat [of ?lines] lines_good concat_lines by auto
  have rescanned: "butlast c \<in> set (scanLines attributes)" if "c \<in> set chunks" for c
  proof -
    from that have "c \<in> set ?all"
      by simp
    then have "butlast c \<in> butlast ` set ?all"
      by (rule imageI)
    then show ?thesis
      by (simp only: scanned set_map)
  qed
  have env: "config_LocalGitDir e' = config_LocalGitDir e"
    "config_LocalWorkingDir e' = config_LocalWorkingDir e"
    "os_Getwd e' = os_Getwd e" "cleanRootPath e' = cleanRootPath e"
    "trackLockableFlag e' = trackLockableFlag e" "os_OpenFile e' = os_OpenFile e"
    "ioutil_ReadFile e' = ReadOk attributes"
    by (simp_all add: assms(3))
  have written_file: "os_Open e' path = Some attributes"
    by (simp add: assms(3))
  have other_files: "os_Open e' other = os_Open e other" if "other \<noteq> path" for other
    using that by (simp add: assms(3))
  have rendered: "\<exists>known \<in> set (findPaths e').
      Path known = Join [?reldir, cleanRootPath e arg] \<and> Lockable known = ?flag"
    if arg: "arg \<in> set args"
      and c: "changedAttribLine ?flag (cleanRootPath e arg) \<in> set ?all" for arg
  proof -
    let ?p = "cleanRootPath e arg"
    let ?c = "changedAttribLine ?flag ?p"
    from c have "butlast ?c \<in> butlast ` set ?all"
      by (rule imageI)
    then have line: "butlast ?c \<in> set (scanLines attributes)"
      by (simp only: scanned set_map)
    from assms(8) arg have p: "?p \<noteq> []" "\<not> hasSpace ?p" "?flag \<or> \<not> Contains ?p lockableAttrib"
      by auto
    let ?known = "\<lparr>Path = Join [?reldir, ?p],
        Source = fst (Rel (config_LocalWorkingDir e) path), Lockable = ?flag\<rparr>"
    have "lineEntry e' path (butlast ?c) = [?known]"
      using lineEntry_rendered [OF p, of e' path] by (simp add: env(2))
    then have "?known \<in> set (lineEntry e' path (butlast ?c))"
      by simp
    from findPaths_member [OF assms(5) written_file line this] show ?thesis
      by (intro bexI [of _ ?known]) simp_all
  qed
  have supported: "alreadySupported e' (findPaths e') ?relpath (cleanRootPath e arg)"
    if arg: "arg \<in> set args" for arg
  proof -
    let ?p = "cleanRootPath e arg"
    have "\<exists>known \<in> set (findPaths e').
        Path known = Join [?relpath, ?p] \<and> Lockable known = ?flag"
    proof (cases "alreadySupported e (findPaths e) ?relpath ?p")
      case False
      from argsLoop_tracked [OF arg False] have "changedAttribLine ?flag ?p \<in> snd ` set ?m"
        by force
      with covered appended have "changedAttribLine ?flag ?p \<in> set ?all"
        by auto
      from rendered [OF arg this] show ?thesis
        by (simp only: assms(7))
    next
      case True
      then obtain known where known: "known \<in> set (findPaths e)"
        "Path known = Join [?relpath, ?p]" "Lockable known = ?flag"
        by (auto simp add: alreadySupported_def list_ex_iff)
      from findPaths_source [OF known(1)] obtain other old line where
        source: "other \<in> set (findAttributeFiles e)" "os_Open e other = Some old"
          "line \<in> set (scanLines old)" "known \<in> set (lineEntry e other line)"
        by blast
      have same: "lineEntry e' other line = lineEntry e other line"
        unfolding lineEntry_def env(2) ..
      show ?thesis
      proof (cases "other = path")
        case False
        from source(1) assms(4) have walked: "other \<in> set (findAttributeFiles e')"
          by blast
        from source(2) other_files [OF False] have unchanged: "os_Open e' other = Some old"
          by simp
        from source(4) same have "known \<in> set (lineEntry e' other line)"
          by simp
        with walked unchanged source(3) have "known \<in> set (findPaths e')"
          by (intro findPaths_member)
        with known(2,3) show ?thesis
          by blast
      next
        case True
        with source(2) assms(6) have "ioutil_ReadFile e = ReadOk old"
          by simp
        with source(3) have "line \<in> set ?old"
          by simp
        with scanned_old consider (kept) "?nl line \<in> set chunks"
          | (replaced) newline where "(firstField line, newline) \<in> set ?m" "newline \<in> set chunks"
          by blast
        then show ?thesis
        proof cases
          case kept
          from rescanned [OF this] have "line \<in> set (scanLines attributes)"
            by simp
          moreover from source(4) same True have "known \<in> set (lineEntry e' path line)"
            by simp
          ultimately have "known \<in> set (findPaths e')"
            by (rule findPaths_member [OF assms(5) written_file])
          with known(2,3) show ?thesis
            by blast
        next
          case replaced
          from entry [OF replaced(1)] obtain other where other: "other \<in> set args"
            "firstField line = cleanRootPath e other"
            "newline = changedAttribLine ?flag (cleanRootPath e other)"
            by blast
          from replaced(2) other(3)
          have "changedAttribLine ?flag (cleanRootPath e other) \<in> set ?all"
            by simp
          from rendered [OF other(1) this] obtain known' where
            known': "known' \<in> set (findPaths e')"
              "Path known' = Join [?reldir, cleanRootPath e other]" "Lockable known' = ?flag"
            by blast
          from lineEntry_Path [OF source(4)] True other(2)
          have "Path known = Join [?reldir, cleanRootPath e other]"
            by simp
          with known' known(2) show ?thesis
            by (intro bexI [of _ known']) simp_all
        qed
      qed
    qed
    then show ?thesis
      by (auto simp add: alreadySupported_def list_ex_iff env(5))
  qed
  have all_supported: "\<forall>arg \<in> set args.
      alreadySupported e' (findPaths e')
        (fst (Rel (config_LocalWorkingDir e') (os_Getwd e'))) (cleanRootPath e' arg)"
    using supported by (simp add: env)
  have "trackCommand e' args
      = \<lparr>printed = map (\<lambda>arg. AlreadySupported (cleanRootPath e' arg)) args,
         written = Some attributes, touched = [], ending = Returns\<rparr>"
  proof (rule trackCommand_all_supported [OF _ _ args _ env(7) _ all_supported])
    show "config_LocalGitDir e' \<noteq> []" "config_LocalWorkingDir e' \<noteq> []"
      using dirs by (simp_all add: env)
    show "\<not> snd (Rel (config_LocalWorkingDir e') (os_Getwd e'))"
      using rel by (simp add: env)
    show "os_OpenFile e'"
      using opened by (simp add: env)
    show "\<forall>line \<in> set (scanLines attributes). Fields line \<noteq> []"
      using lines_good by (simp only: scanned) blast
    show "concat (map ?nl (scanLines attributes)) = attributes"
      by (simp only: scanned concat_lines)
  qed
  moreover have "snd (argsLoop e' (findPaths e') ?relpath args ([], [])) = []"
    using argsLoop_all_supported [of args e' "findPaths e'" ?relpath "[]" "[]"] supported
    by (simp add: env)
  ultimately show ?thesis
    by (simp add: env)
qed

lemma second_run_supported_example:
  "trackCommand (repoWith binAttributes) [''*.txt'', ''*.bin'']
     = \<lparr>printed = [Tracking ''*.txt'', AlreadySupported ''*.bin''],
        written = Some binTxtAttributes, touched = [], ending = Returns\<rparr>
   \<and> trackCommand (repoWith binTxtAttributes) [''*.txt'', ''*.bin'']
     = \<lparr>printed = [AlreadySupported ''*.txt'', AlreadySupported ''*.bin''],
        written = Some binTxtAttributes, touched = [], ending = Returns\<rparr>"
proof -
  let ?e = "repoWith binAttributes"
  let ?e' = "repoWith binTxtAttributes"
  let ?args = "[''*.txt'', ''*.bin'']"
  let ?path = "''/repo/.gitattributes''"
  have first: "trackCommand ?e ?args
     = \<lparr>printed = [Tracking ''*.txt'', AlreadySupported ''*.bin''],
        written = Some binTxtAttributes, touched = [], ending = Returns\<rparr>"
    by code_simp
  then have 1: "ending (trackCommand ?e ?args) = Returns"
    and 2: "written (trackCommand ?e ?args) = Some binTxtAttributes"
    by simp_all
  have 3: "?e' = ?e\<lparr>ioutil_ReadFile := ReadOk binTxtAttributes,
      tree := Directory [(''.gitattributes'', File)],
      os_Open := (os_Open ?e)(?path \<mapsto> binTxtAttributes)\<rparr>"
    by (simp add: repoWith_def emptyRepo_def fun_eq_iff)
  have 4: "set (findAttributeFiles ?e) \<subseteq> set (findAttributeFiles ?e')"
    by code_simp
  have 5: "?path \<in> set (findAttributeFiles ?e')"
    by code_simp
  have 6: "\<forall>old. os_Open ?e ?path = Some old \<longrightarrow> ioutil_ReadFile ?e = ReadOk old"
    by (simp add: repoWith_def)
  have 7: "Dir (fst (Rel (config_LocalWorkingDir ?e) ?path))
      = fst (Rel (config_LocalWorkingDir ?e) (os_Getwd ?e))"
    by code_simp
  have 8: "\<forall>arg \<in> set ?args.
      cleanRootPath ?e arg \<noteq> [] \<and> \<not> hasSpace (cleanRootPath ?e arg)
      \<and> (trackLockableFlag ?e \<or> \<not> Contains (cleanRootPath ?e arg) lockableAttrib)
      \<and> int (length (changedAttribLine (trackLockableFlag ?e) (cleanRootPath ?e arg)))
          \<le> MaxScanTokenSize"
    by code_simp
  have 9: "\<forall>line \<in> set (case ioutil_ReadFile ?e of ReadOk old \<Rightarrow> scanLines old | _ \<Rightarrow> []).
      dropCR line = line"
    by code_simp
  have "cleanRootPath ?e = (\<lambda>pattern. pattern)"
    by (simp add: repoWith_def emptyRepo_def)
  with second_run_supported [OF 1 2 3 4 5 6 7 8 9] first show ?thesis
    by simp
qed

text \<open>
  Why three of the conditions are there. When the walk of the second run fails before
  it reaches the rule file (here on a directory \<open>.cache\<close> that cannot be read), the
  rule just written is not known and the pattern is tracked again, its line replaced by
  itself. When the current directory is reached by a name outside the work tree (here
  \<open>/link\<close>, a link to \<open>/repo\<close>), the known path \<open>*.txt\<close> is compared with
  \<open>../link/*.txt\<close> and the pattern is tracked again. When a line of the old rule file
  ends in two carriage returns, each run drops one of them.
\<close>

lemma second_run_conditions:
  "trackCommand
     ((repoWith (''*.txt filter=lfs diff=lfs merge=lfs -text'' @ [CHR 0x0A]))
        \<lparr>tree := Directory [(''.cache'', UnreadableDirectory), (''.gitattributes'', File)]\<rparr>)
     [''*.txt'']
     = \<lparr>printed = [Tracking ''*.txt''],
        written = Some (''*.txt filter=lfs diff=lfs merge=lfs -text'' @ [CHR 0x0A]),
        touched = [], ending = Returns\<rparr>
   \<and> trackCommand
     ((repoWith (''*.txt filter=lfs diff=lfs merge=lfs -text'' @ [CHR 0x0A]))
        \<lparr>os_Getwd := ''/link''\<rparr>)
     [''*.txt'']
     = \<lparr>printed = [Tracking ''*.txt''],
        written = Some (''*.txt filter=lfs diff=lfs merge=lfs -text'' @ [CHR 0x0A]),
        touched = [], ending = Returns\<rparr>
   \<and> written (trackCommand (repoWith (''*.bin -text'' @ [CHR 0x0D, CHR 0x0D, CHR 0x0A])) [''*.txt''])
     = Some (''*.bin -text'' @ [CHR 0x0D, CHR 0x0A]
             @ ''*.txt filter=lfs diff=lfs merge=lfs -text'' @ [CHR 0x0A])
   \<and> written (trackCommand
        (repoWith (''*.bin -text'' @ [CHR 0x0D, CHR 0x0A]
                   @ ''*.txt filter=lfs diff=lfs merge=lfs -text'' @ [CHR 0x0A])) [''*.txt''])
     = Some (''*.bin -text'' @ [CHR 0x0A]
             @ ''*.txt filter=lfs diff=lfs merge=lfs -text'' @ [CHR 0x0A])"
  by code_simp

text \<open>
  Claim C1 says that a second run with the same pattern and the same lockable flag
  reports the pattern as already supported, adds nothing to the map
  \<open>changedAttribLines\<close> and leaves the rule file with the bytes the first run wrote. The
  code means to do so: ArgsLoop skips a pattern that is among the known paths, and the
  merge writes the line of a pattern in the place of its old line. For a pattern that
  holds a space it does neither. The line written holds \<open>[[:space:]]\<close> for the space,
  and both tests compare the first field of that line with the pattern as it was
  given. Here the pattern \<open>a b\<close> is tracked in an empty work tree, and again in the
  work tree the first run left: the known path is \<open>a[[:space:]]b\<close>, the pattern is not
  found supported, the second run reports that it tracks the pattern, puts it in the
  map, and appends its line a second time.
\<close>

theorem space_pattern_tracked_twice:
  "trackCommand emptyRepo [''a b'']
     = \<lparr>printed = [Tracking ''a b''],
        written = Some (''a[[:space:]]b filter=lfs diff=lfs merge=lfs -text'' @ [CHR 0x0A]),
        touched = [], ending = Returns\<rparr>
   \<and> findPaths (repoWith (''a[[:space:]]b filter=lfs diff=lfs merge=lfs -text'' @ [CHR 0x0A]))
     = [\<lparr>Path = ''a[[:space:]]b'', Source = ''.gitattributes'', Lockable = False\<rparr>]
   \<and> argsLoop (repoWith (''a[[:space:]]b filter=lfs diff=lfs merge=lfs -text'' @ [CHR 0x0A]))
        (findPaths (repoWith (''a[[:space:]]b filter=lfs diff=lfs merge=lfs -text'' @ [CHR 0x0A])))
        ''.'' [''a b''] ([], [])
     = ([Tracking ''a b''],
        [(''a b'', ''a[[:space:]]b filter=lfs diff=lfs merge=lfs -text'' @ [CHR 0x0A])])
   \<and> trackCommand (repoWith (''a[[:space:]]b filter=lfs diff=lfs merge=lfs -text'' @ [CHR 0x0A])) [''a b'']
     = \<lparr>printed = [Tracking ''a b''],
        written = Some (''a[[:space:]]b filter=lfs diff=lfs merge=lfs -text'' @ [CHR 0x0A]
                        @ ''a[[:space:]]b filter=lfs diff=lfs merge=lfs -text'' @ [CHR 0x0A]),
        touched = [], ending = Returns\<rparr>"
  by code_simp

end
